theory Spec2Isabelle
  imports Main
begin

section \<open>The source-event queue of gatsby (redux/events/index.ts)\<close>

text \<open>
  The module serialises plugin-supplied event handlers through one fastq queue of
  concurrency 1 and tags every execution with an AsyncLocalStorage token. The embedding
  keeps the module's own functions (\<open>getQueue\<close>, the queue worker, \<open>pushTaskToQueue\<close>,
  \<open>wrappedFunction\<close>, \<open>wrapHandlerWithEventTracking\<close>, \<open>defineSourceEvent\<close>,
  \<open>runEvent\<close>) as functions on an explicit state: the module variables, the promise
  store, and the two job queues of the JavaScript event loop.
\<close>

subsection \<open>Handlers as scripts\<close>

text \<open>
  A user handler is arbitrary JavaScript. What the module can observe of it is: which
  wrapped handlers it calls and when, where it suspends, and how it ends. A handler body
  is therefore a script. In its synchronous prefix \<open>Return v\<close> is a return value that
  is no promise and \<open>Throw e\<close> a synchronous exception; the first \<open>Await\<close> or
  \<open>Sleep\<close> makes the handler return a promise, which a later \<open>Return v\<close> resolves
  with \<open>v\<close> and a later \<open>Throw e\<close> rejects with \<open>e\<close>. \<open>Hang\<close> is a promise that
  never settles.
  \<open>Invoke h a c\<close> calls the wrapped handler stored at reference \<open>h\<close> with \<open>a\<close>, drops
  the returned future and goes on with \<open>c\<close> (a handler that waits for that future
  instead waits for ever, as the queue takes the inner task up only after the outer one:
  it is \<open>Invoke\<close> followed by \<open>Hang\<close>). \<open>Await\<close> suspends to the microtask queue,
  \<open>Sleep\<close> to the macrotask queue, and \<open>Fork d c\<close> starts the detached branch \<open>d\<close>
  (not part of the returned promise) and goes on with \<open>c\<close>.
\<close>

text \<open>
  Values. The worker tells a promise from a plain value by the test \<open>result?.then\<close>,
  so a value is kept with what its \<open>then\<close> property is: \<open>Plain n\<close> has none or a
  falsy one (a number, a string, \<open>undefined\<close>, \<open>null\<close>, most objects); \<open>Marked n\<close> is
  an object whose \<open>then\<close> is truthy and no function (\<open>{then: 1}\<close>); \<open>Thenable r\<close> is
  an object of the user, no promise, whose \<open>then\<close> is a function. Such a function is
  user code: called with a reaction it never calls it, calls it once with a plain value
  before it returns, or throws (one that calls the reaction in a later turn behaves as a
  promise does, which is a script that suspends).
\<close>

datatype reply = Silent | Replies nat | Raises string

datatype val = Plain nat | Marked nat | Thenable reply

text \<open>The test \<open>result?.then\<close>.\<close>

fun has_then :: "val \<Rightarrow> bool" where
  "has_then (Plain n) = False"
| "has_then (Marked n) = True"
| "has_then (Thenable r) = True"

text \<open>
  The call \<open>result.then(reaction)\<close> on a value that is no promise: calling what is no
  function is a \<open>TypeError\<close>.
\<close>

fun call_then :: "val \<Rightarrow> reply" where
  "call_then (Thenable r) = r"
| "call_then (Marked n) = Raises ''TypeError''"
| "call_then (Plain n) = Raises ''TypeError''"

datatype code =
    Return val
  | Throw string
  | Hang
  | Invoke nat nat code
  | Await code
  | Sleep code
  | Fork code code

type_synonym EventType = string

record IGatsbyPlugin =
  plugin_id :: string
  plugin_name :: string
  pluginOptions :: "(string \<times> string) list"

text \<open>\<open>handler(args, actions)\<close>: the actions are bound to the task's plugin.\<close>

type_synonym EventHandlerArg = "nat \<Rightarrow> IGatsbyPlugin \<Rightarrow> code"

record ISourceEventArgs =
  d_type :: "EventType option"
  d_description :: "string option"
  d_meta :: "(string \<times> string) list option"
  d_handler :: "EventHandlerArg option"

text \<open>A data property of a JavaScript object, with the two attributes that matter here.\<close>

record 'a property =
  pvalue :: 'a
  writable :: bool
  configurable :: bool

text \<open>
  The wrapped function object: the closure variables \<open>type\<close> and \<open>handler\<close> of
  \<open>wrapHandlerWithEventTracking\<close>, and the two own properties it defines.
\<close>

record EventHandler =
  cl_type :: EventType
  cl_handler :: EventHandlerArg
  type_prop :: "EventType property"
  plugin_prop :: "IGatsbyPlugin option property"

record ITask =
  t_type :: EventType
  t_handler :: EventHandlerArg
  t_args :: nat
  t_parent :: "string option"
  t_plugin :: IGatsbyPlugin

text \<open>
  An entry of the queue: the task and the \<open>done\<close> callback of \<open>push\<close>. The callback of
  \<open>pushTaskToQueue\<close> closes over one promise, so it is kept as that promise's index.
\<close>

record qitem =
  q_task :: ITask
  q_done :: nat

record fastq =
  running :: nat
  concurrency :: nat
  waiting :: "qitem list"

datatype settle = Pending | Resolved val | Rejected string

datatype tickq = Micro | Macro

datatype outcome = Returned val | Threw string | Hung | Suspended tickq code

text \<open>
  Jobs of the event loop. Each carries the AsyncLocalStorage store it was created in.
  \<open>Immediate\<close> is the \<open>setImmediate\<close> callback of the worker, \<open>Main\<close> the rest of a
  handler whose promise the worker waits for, \<open>Detached\<close> a forked branch (with the
  task it was forked from), \<open>Reaction\<close> the worker's \<open>res => cb(null, res)\<close>.
\<close>

datatype job =
    Immediate qitem string
  | Main code "string option" qitem
  | Detached code "string option" "nat option"
  | Reaction qitem val

text \<open>
  Observations. \<open>EInvoke c h a\<close>: the wrapped handler \<open>h\<close> is called with \<open>a\<close> from
  the execution of task \<open>c\<close> (or from outside every task); tasks are named by the index
  of their future. \<open>EPush p c par\<close>: a task with future \<open>p\<close> and parent \<open>par\<close> is
  pushed by that caller. \<open>EStart p ty tok\<close>: the worker is called for it, with type
  \<open>ty\<close>, and generates \<open>tok\<close>. \<open>EBegin p st\<close>: its handler is called with ambient
  store \<open>st\<close>. \<open>EEnd p b v\<close>: the handler body is complete with value \<open>v\<close>, which
  the worker took as a plain return (\<open>b\<close> false) or as the resolution of what the
  handler returned (\<open>b\<close> true). \<open>EFail p\<close>: the handler or the worker's callback
  threw, or the handler's promise rejected.
\<close>

datatype event =
    EInvoke "nat option" nat nat
  | EPush nat "nat option" "string option"
  | EStart nat EventType string
  | EBegin nat "string option"
  | EEnd nat bool val
  | EFail nat

text \<open>
  The module variables \<open>eventSystemQueue\<close> and \<open>asyncStorage\<close> (both \<open>null\<close> at load
  time; of the storage only its existence is state, the store itself travels with the
  jobs), the heap of handler objects, the promise store, the event loop's queues, and
  the observations. \<open>uuid.v4\<close> comes from gatsby-core-utils, which is not under src/:
  the values it returns are a parameter, the sequence \<open>rng\<close>, of which \<open>drawn\<close> counts
  those used. \<open>uncaught\<close> collects the errors that the host has been told of (uncaught
  exceptions and unhandled rejections); a host that ends the process on one of them
  cuts the run short at that point. \<open>unhandled\<close> holds the rejections without a handler
  that the host has not been told of yet: it hears of them when the microtasks have
  drained.
\<close>

record state =
  eventSystemQueue :: "fastq option"
  asyncStorage :: bool
  handlers :: "EventHandler list"
  futures :: "settle list"
  micro :: "job list"
  macro :: "job list"
  rng :: "nat \<Rightarrow> string"
  drawn :: nat
  uncaught :: "string list"
  unhandled :: "string list"
  trace :: "event list"

definition init :: "(nat \<Rightarrow> string) \<Rightarrow> state" where
  "init g = \<lparr>eventSystemQueue = None, asyncStorage = False, handlers = [], futures = [],
     micro = [], macro = [], rng = g, drawn = 0, uncaught = [], unhandled = [],
     trace = []\<rparr>"

subsection \<open>Promises\<close>

definition new_future :: "settle \<Rightarrow> state \<Rightarrow> nat \<times> state" where
  "new_future st s = (length (futures s), s\<lparr>futures := futures s @ [st]\<rparr>)"

text \<open>\<open>resolve\<close> and \<open>reject\<close> act on a pending promise only.\<close>

definition settle_future :: "nat \<Rightarrow> settle \<Rightarrow> state \<Rightarrow> state" where
  "settle_future p st s =
     (if p < length (futures s) \<and> futures s ! p = Pending
      then s\<lparr>futures := (futures s)[p := st]\<rparr> else s)"

definition schedule :: "tickq \<Rightarrow> job \<Rightarrow> state \<Rightarrow> state" where
  "schedule k j s = (case k of Micro \<Rightarrow> s\<lparr>micro := micro s @ [j]\<rparr>
                          | Macro \<Rightarrow> s\<lparr>macro := macro s @ [j]\<rparr>)"

definition observe :: "event \<Rightarrow> state \<Rightarrow> state" where
  "observe e s = s\<lparr>trace := trace s @ [e]\<rparr>"

text \<open>An exception that nothing catches reaches the host at once.\<close>

definition escape :: "string \<Rightarrow> state \<Rightarrow> state" where
  "escape e s = s\<lparr>uncaught := uncaught s @ [e]\<rparr>"

text \<open>
  A promise that is rejected and has no handler is noted, and reported to the host
  when the microtask queue is empty, before the next macrotask.
\<close>

definition reject_unhandled :: "string \<Rightarrow> state \<Rightarrow> state" where
  "reject_unhandled e s = s\<lparr>unhandled := unhandled s @ [e]\<rparr>"

definition report :: "state \<Rightarrow> state" where
  "report s = s\<lparr>uncaught := uncaught s @ unhandled s, unhandled := []\<rparr>"

subsection \<open>The queue\<close>

text \<open>
  Modelled from the spec: \<open>fastq(worker, concurrency)\<close> of the fastq library, a
  dependency that is not under src/, creates an empty queue on which nothing runs
  (spec 4.2: "created lazily with concurrency fixed at 1").
\<close>

definition fastq_new :: "nat \<Rightarrow> fastq" where
  "fastq_new c = \<lparr>running = 0, concurrency = c, waiting = []\<rparr>"

definition queue_of :: "state \<Rightarrow> fastq" where
  "queue_of s = (case eventSystemQueue s of None \<Rightarrow> fastq_new 1 | Some q \<Rightarrow> q)"

text \<open>\<open>getQueue\<close>: creates the queue with concurrency 1 when the variable is null.\<close>

definition getQueue :: "state \<Rightarrow> state" where
  "getQueue s = (case eventSystemQueue s of
                   None \<Rightarrow> s\<lparr>eventSystemQueue := Some (fastq_new 1)\<rparr>
                 | Some q \<Rightarrow> s)"

text \<open>
  The worker (lines 69 to 91), up to its \<open>setImmediate\<close>: it draws a uuid, forms the
  token and schedules the callback inside \<open>asyncStorage.run(token, ...)\<close>. The
  non-null assertion on \<open>asyncStorage\<close> is a \<open>TypeError\<close> at run time when the
  variable is still null; \<open>wrappedFunction\<close> assigns it before it pushes, so no call
  of the worker from this module meets that case, and the error is only recorded.
\<close>

definition worker :: "qitem \<Rightarrow> state \<Rightarrow> state" where
  "worker it s =
     (if \<not> asyncStorage s then escape ''TypeError'' s
      else let token = t_type (q_task it) @ ''-'' @ rng s (drawn s)
           in observe (EStart (q_done it) (t_type (q_task it)) token)
                (s\<lparr>drawn := Suc (drawn s), macro := macro s @ [Immediate it token]\<rparr>))"

text \<open>
  Modelled from the spec: \<open>push\<close> of the fastq library, which is not under src/. The
  spec (4.2) has \<open>push\<close> enqueue a task, the worker loop take the next task only after
  the previous one has settled, in the order of submission, and the parallelism capped
  by the concurrency. As in the library, \<open>push\<close> calls the worker at once when fewer
  than \<open>concurrency\<close> tasks run, and appends the task to those waiting otherwise.
\<close>

definition fq_push :: "nat option \<Rightarrow> qitem \<Rightarrow> state \<Rightarrow> state" where
  "fq_push own it s0 =
     (let s = observe (EPush (q_done it) own (t_parent (q_task it))) s0; q = queue_of s
      in if concurrency q \<le> running q
         then s\<lparr>eventSystemQueue := Some (q\<lparr>waiting := waiting q @ [it]\<rparr>)\<rparr>
         else worker it (s\<lparr>eventSystemQueue := Some (q\<lparr>running := Suc (running q)\<rparr>)\<rparr>))"

text \<open>
  Modelled from the spec: \<open>release\<close> of the fastq library. When a task has handed back
  its result, the worker is called for the oldest waiting task, if there is one, and the
  slot is given up otherwise.
\<close>

definition fq_release :: "state \<Rightarrow> state" where
  "fq_release s =
     (let q = queue_of s
      in case waiting q of
           n # rest \<Rightarrow>
             if running q \<le> concurrency q
             then worker n (s\<lparr>eventSystemQueue := Some (q\<lparr>waiting := rest\<rparr>)\<rparr>)
             else s\<lparr>eventSystemQueue := Some (q\<lparr>running := running q - 1\<rparr>)\<rparr>
         | [] \<Rightarrow> s\<lparr>eventSystemQueue := Some (q\<lparr>running := running q - 1\<rparr>)\<rparr>)"

text \<open>The callback of \<open>pushTaskToQueue\<close>: reject on an error, resolve otherwise.\<close>

definition pushCallback :: "nat \<Rightarrow> string option \<Rightarrow> val \<Rightarrow> state \<Rightarrow> state" where
  "pushCallback p err result s =
     (case err of Some e \<Rightarrow> settle_future p (Rejected e) s
                | None \<Rightarrow> settle_future p (Resolved result) s)"

text \<open>
  Modelled from the spec: the callback \<open>cb\<close> that the fastq library hands to the worker.
  It calls the \<open>done\<close> callback given to \<open>push\<close> with the error and the result, then
  releases the slot.
\<close>

definition fq_worked :: "qitem \<Rightarrow> string option \<Rightarrow> val \<Rightarrow> state \<Rightarrow> state" where
  "fq_worked it err result s = fq_release (pushCallback (q_done it) err result s)"

text \<open>
  \<open>pushTaskToQueue\<close>: a new promise whose executor pushes the task. The promise of
  the enclosing \<open>async\<close> function adopts it, and so does the one of \<open>wrappedFunction\<close>;
  the three settle alike and are kept as one future.
\<close>

definition pushTaskToQueue :: "nat option \<Rightarrow> ITask \<Rightarrow> state \<Rightarrow> nat \<times> state" where
  "pushTaskToQueue own task s =
     (let (p, s1) = new_future Pending s
      in (p, fq_push own \<lparr>q_task = task, q_done = p\<rparr> (getQueue s1)))"

subsection \<open>Definition and invocation of handlers\<close>

text \<open>JavaScript truthiness of an optional string: absent and empty are falsy.\<close>

fun truthy :: "string option \<Rightarrow> bool" where
  "truthy None = False"
| "truthy (Some s) = (s \<noteq> [])"

text \<open>\<open>Object.defineProperty\<close> of a new property: missing attributes are false.\<close>

definition defineProperty :: "'a \<Rightarrow> bool option \<Rightarrow> 'a property" where
  "defineProperty v w =
     \<lparr>pvalue = v, writable = (case w of None \<Rightarrow> False | Some b \<Rightarrow> b), configurable = False\<rparr>"

definition wrapHandlerWithEventTracking :: "EventType \<Rightarrow> EventHandlerArg \<Rightarrow> EventHandler" where
  "wrapHandlerWithEventTracking ty h =
     \<lparr>cl_type = ty, cl_handler = h,
      type_prop = defineProperty ty None,
      plugin_prop = defineProperty None (Some True)\<rparr>"

definition defineSourceEvent :: "ISourceEventArgs \<Rightarrow> string + EventHandler" where
  "defineSourceEvent d =
     (if \<not> truthy (d_type d) then Inl ''Your event is missing a type name.''
      else if \<not> truthy (d_description d) then Inl ''Please add a description to your event''
      else case d_handler d of
             None \<Rightarrow> Inl ''Please add a handler to your event''
           | Some h \<Rightarrow> Inr (wrapHandlerWithEventTracking (the (d_type d)) h))"

text \<open>
  \<open>wrappedFunction\<close>, called on the handler object at reference \<open>h\<close> of the heap
  (every caller has checked that \<open>h\<close> is one) with ambient store \<open>ctx\<close>, which is
  what \<open>asyncStorage.getStore()\<close> returns. It is an \<open>async\<close> function: it always
  returns a future to its caller, and its \<open>throw\<close> is a future that is already rejected
  when the call returns.
\<close>

definition wrappedFunction ::
    "nat option \<Rightarrow> string option \<Rightarrow> nat \<Rightarrow> nat \<Rightarrow> state \<Rightarrow> nat \<times> state" where
  "wrappedFunction own ctx h a s0 =
     (let s = observe (EInvoke own h a) s0; f = handlers s ! h
      in case pvalue (plugin_prop f) of
           None \<Rightarrow> new_future (Rejected ''Please make sure you registered the function'') s
         | Some p \<Rightarrow>
             pushTaskToQueue own
               \<lparr>t_type = cl_type f, t_handler = cl_handler f, t_args = a,
                t_parent = ctx, t_plugin = p\<rparr>
               (s\<lparr>asyncStorage := True\<rparr>))"

text \<open>
  A caller that drops the future it got and goes on: a future that is rejected and has
  no handler is an unhandled rejection.
\<close>

definition discard :: "nat \<times> state \<Rightarrow> state" where
  "discard r = (case drop (fst r) (futures (snd r)) of
                  Rejected e # fs \<Rightarrow> reject_unhandled e (snd r)
                | _ \<Rightarrow> snd r)"

text \<open>
  Running a script up to its next suspension. Calling a reference that holds no
  function is a \<open>TypeError\<close>.
\<close>

fun exec :: "nat option \<Rightarrow> string option \<Rightarrow> code \<Rightarrow> state \<Rightarrow> outcome \<times> state" where
  "exec own ctx (Return v) s = (Returned v, s)"
| "exec own ctx (Throw e) s = (Threw e, s)"
| "exec own ctx Hang s = (Hung, s)"
| "exec own ctx (Invoke h a c) s =
     (if h < length (handlers s) then exec own ctx c (discard (wrappedFunction own ctx h a s))
      else (Threw ''TypeError'', s))"
| "exec own ctx (Await c) s = (Suspended Micro c, s)"
| "exec own ctx (Sleep c) s = (Suspended Macro c, s)"
| "exec own ctx (Fork d c) s = exec own ctx c (schedule Micro (Detached d ctx own) s)"

subsection \<open>The event loop\<close>

text \<open>
  The \<open>setImmediate\<close> callback of the worker calls the handler and looks at the result
  (lines 81 to 87). A result that passes the test \<open>result?.then\<close> gets the reaction
  \<open>res => cb(null, res)\<close> and nothing else: \<open>take_then\<close> is that branch for a result
  that is no promise, where \<open>then\<close> is what the value has. Every other result goes to
  \<open>cb(null, result)\<close> at once. An exception of the handler, or of the call of \<open>then\<close>,
  leaves the callback uncaught; a rejection of the handler's promise is unhandled.
  Neither reaches \<open>cb\<close>.
\<close>

definition take_then :: "qitem \<Rightarrow> val \<Rightarrow> state \<Rightarrow> state" where
  "take_then it x s =
     (case call_then x of
        Silent \<Rightarrow> s
      | Replies w \<Rightarrow>
          fq_worked it None (Plain w) (observe (EEnd (q_done it) True (Plain w)) s)
      | Raises e \<Rightarrow> escape e (observe (EFail (q_done it)) s))"

text \<open>
  The promise of an \<open>async\<close> handler that returns \<open>x\<close>: it is fulfilled with \<open>x\<close>
  unless \<open>then\<close> of \<open>x\<close> is a function, which the promise follows, one microtask later.
\<close>

definition resolve_main :: "string option \<Rightarrow> qitem \<Rightarrow> val \<Rightarrow> state \<Rightarrow> state" where
  "resolve_main ctx it x s =
     (case x of
        Thenable r \<Rightarrow>
          (case r of
             Silent \<Rightarrow> s
           | Replies w \<Rightarrow> schedule Micro (Main (Return (Plain w)) ctx it) s
           | Raises e \<Rightarrow> reject_unhandled e (observe (EFail (q_done it)) s))
      | _ \<Rightarrow> schedule Micro (Reaction it x) (observe (EEnd (q_done it) True x) s))"

definition finish :: "job \<Rightarrow> outcome \<times> state \<Rightarrow> state" where
  "finish j r =
     (case j of
        Immediate it tok \<Rightarrow>
          (case fst r of
             Returned x \<Rightarrow>
               if has_then x then take_then it x (snd r)
               else fq_worked it None x (observe (EEnd (q_done it) False x) (snd r))
           | Threw e \<Rightarrow> escape e (observe (EFail (q_done it)) (snd r))
           | Hung \<Rightarrow> snd r
           | Suspended k c \<Rightarrow> schedule k (Main c (Some tok) it) (snd r))
      | Main c0 ctx it \<Rightarrow>
          (case fst r of
             Returned x \<Rightarrow> resolve_main ctx it x (snd r)
           | Threw e \<Rightarrow> reject_unhandled e (observe (EFail (q_done it)) (snd r))
           | Hung \<Rightarrow> snd r
           | Suspended k c \<Rightarrow> schedule k (Main c ctx it) (snd r))
      | Detached c0 ctx own \<Rightarrow>
          (case fst r of
             Returned x \<Rightarrow> snd r
           | Threw e \<Rightarrow> reject_unhandled e (snd r)
           | Hung \<Rightarrow> snd r
           | Suspended k c \<Rightarrow> schedule k (Detached c ctx own) (snd r))
      | Reaction it v \<Rightarrow> snd r)"

text \<open>
  The call \<open>handler(args, actions)\<close> of the worker's callback, made with ambient store
  \<open>st\<close>: the handler runs with that store, up to its first suspension.
\<close>

definition call_handler :: "string option \<Rightarrow> qitem \<Rightarrow> state \<Rightarrow> outcome \<times> state" where
  "call_handler st it s =
     exec (Some (q_done it)) st
       (t_handler (q_task it) (t_args (q_task it)) (t_plugin (q_task it)))
       (observe (EBegin (q_done it) st) s)"

text \<open>
  A job runs with the store it was created in: the callback that the worker scheduled
  inside \<open>asyncStorage.run(token, ...)\<close> runs with that token.
\<close>

definition run_job :: "job \<Rightarrow> state \<Rightarrow> state" where
  "run_job j s =
     (case j of
        Immediate it tok \<Rightarrow> finish j (call_handler (Some tok) it s)
      | Main c ctx it \<Rightarrow> finish j (exec (Some (q_done it)) ctx c s)
      | Detached c ctx own \<Rightarrow> finish j (exec own ctx c s)
      | Reaction it v \<Rightarrow> fq_worked it None v s)"

text \<open>
  One turn of the loop: the oldest microtask, or else, once the unhandled rejections
  are reported, the oldest macrotask.
\<close>

definition tick :: "state \<Rightarrow> state" where
  "tick s =
     (case micro s of
        j # js \<Rightarrow> run_job j (s\<lparr>micro := js\<rparr>)
      | [] \<Rightarrow> (case macro s of
                 j # js \<Rightarrow> run_job j ((report s)\<lparr>macro := js\<rparr>)
               | [] \<Rightarrow> report s))"

fun ticks :: "nat \<Rightarrow> state \<Rightarrow> state" where
  "ticks 0 s = s"
| "ticks (Suc n) s = ticks n (tick s)"

subsection \<open>The dispatcher\<close>

datatype void_promise = Fulfilled | RejectedWith string

text \<open>
  \<open>runEvent\<close>: the loop calls every element whose \<open>type\<close> property is the event name
  and drops what the call returns. Reading \<open>type\<close> of an element that is no object
  is a \<open>TypeError\<close>, which rejects the promise of the \<open>async\<close> function.
\<close>

fun runEvent ::
    "nat option \<Rightarrow> string option \<Rightarrow> nat list \<Rightarrow> EventType \<Rightarrow> nat \<Rightarrow> state
       \<Rightarrow> void_promise \<times> state" where
  "runEvent own ctx [] eventName a s = (Fulfilled, s)"
| "runEvent own ctx (e # es) eventName a s =
     (if e < length (handlers s)
      then if pvalue (type_prop (handlers s ! e)) = eventName
           then runEvent own ctx es eventName a (discard (wrappedFunction own ctx e a s))
           else runEvent own ctx es eventName a s
      else (RejectedWith ''TypeError'', s))"

subsection \<open>Writes to a handler object\<close>

text \<open>
  An assignment \<open>f.type = v\<close> or \<open>f.plugin = p\<close> in strict mode: a \<open>TypeError\<close> on a
  property that is not writable. \<open>Object.defineProperty\<close> with a new value on an
  existing property: allowed when the property is configurable or writable.
\<close>

definition assign :: "'a \<Rightarrow> 'a property \<Rightarrow> string + 'a property" where
  "assign v p = (if writable p then Inr (p\<lparr>pvalue := v\<rparr>) else Inl ''TypeError'')"

definition redefine :: "'a \<Rightarrow> 'a property \<Rightarrow> string + 'a property" where
  "redefine v p =
     (if configurable p \<or> writable p \<or> pvalue p = v then Inr (p\<lparr>pvalue := v\<rparr>)
      else Inl ''TypeError'')"

datatype mutation =
    AssignType EventType
  | AssignPlugin "IGatsbyPlugin option"
  | RedefineType EventType
  | RedefinePlugin "IGatsbyPlugin option"

fun write_to :: "mutation \<Rightarrow> EventHandler \<Rightarrow> string + EventHandler" where
  "write_to (AssignType v) f =
     (case assign v (type_prop f) of Inl e \<Rightarrow> Inl e | Inr p \<Rightarrow> Inr (f\<lparr>type_prop := p\<rparr>))"
| "write_to (AssignPlugin v) f =
     (case assign v (plugin_prop f) of Inl e \<Rightarrow> Inl e | Inr p \<Rightarrow> Inr (f\<lparr>plugin_prop := p\<rparr>))"
| "write_to (RedefineType v) f =
     (case redefine v (type_prop f) of Inl e \<Rightarrow> Inl e | Inr p \<Rightarrow> Inr (f\<lparr>type_prop := p\<rparr>))"
| "write_to (RedefinePlugin v) f =
     (case redefine v (plugin_prop f) of Inl e \<Rightarrow> Inl e | Inr p \<Rightarrow> Inr (f\<lparr>plugin_prop := p\<rparr>))"

text \<open>
  Modelled from the spec: \<open>register(wrappedHandler, pluginRef)\<close> is not under src/; the
  spec (4.3) has it set the wrapped handler's plugin slot.
\<close>

definition register :: "IGatsbyPlugin \<Rightarrow> EventHandler \<Rightarrow> string + EventHandler" where
  "register p f = write_to (AssignPlugin (Some p)) f"

subsection \<open>Runs\<close>

text \<open>
  What the rest of the program does to the module, between two turns of the event loop
  and outside every task: it defines a handler, writes to a handler object, calls a
  wrapped handler, dispatches an event, or lets the loop take its next turn. An error
  thrown to the top level is recorded like every escaped error.
\<close>

datatype action =
    Tick
  | Define ISourceEventArgs
  | Write nat mutation
  | Call nat nat
  | Dispatch "nat list" EventType nat

fun act :: "state \<Rightarrow> action \<Rightarrow> state" where
  "act s Tick = tick s"
| "act s (Define d) =
     (case defineSourceEvent d of
        Inl e \<Rightarrow> escape e s
      | Inr f \<Rightarrow> s\<lparr>handlers := handlers s @ [f]\<rparr>)"
| "act s (Write h w) =
     (if h < length (handlers s)
      then case write_to w (handlers s ! h) of
             Inl e \<Rightarrow> escape e s
           | Inr f \<Rightarrow> s\<lparr>handlers := (handlers s)[h := f]\<rparr>
      else escape ''TypeError'' s)"
| "act s (Call h a) =
     (if h < length (handlers s) then snd (wrappedFunction None None h a s)
      else escape ''TypeError'' s)"
| "act s (Dispatch hs n a) = snd (runEvent None None hs n a s)"

definition run :: "(nat \<Rightarrow> string) \<Rightarrow> action list \<Rightarrow> state" where
  "run g as = foldl act (init g) as"

subsection \<open>Reading the observations\<close>

definition invocations :: "event list \<Rightarrow> (nat \<times> nat) list" where
  "invocations tr = concat (map (\<lambda>e. case e of EInvoke c h a \<Rightarrow> [(h, a)] | _ \<Rightarrow> []) tr)"

definition pushed :: "event list \<Rightarrow> nat list" where
  "pushed tr = concat (map (\<lambda>e. case e of EPush p c par \<Rightarrow> [p] | _ \<Rightarrow> []) tr)"

definition started :: "event list \<Rightarrow> (nat \<times> EventType \<times> string) list" where
  "started tr = concat (map (\<lambda>e. case e of EStart p ty tok \<Rightarrow> [(p, ty, tok)] | _ \<Rightarrow> []) tr)"

definition begun :: "event list \<Rightarrow> nat list" where
  "begun tr = concat (map (\<lambda>e. case e of EBegin p st \<Rightarrow> [p] | _ \<Rightarrow> []) tr)"

definition ended :: "event list \<Rightarrow> nat list" where
  "ended tr = concat (map (\<lambda>e. case e of EEnd p b v \<Rightarrow> [p] | _ \<Rightarrow> []) tr)"

definition results :: "event list \<Rightarrow> (nat \<times> bool \<times> val) list" where
  "results tr = concat (map (\<lambda>e. case e of EEnd p b v \<Rightarrow> [(p, b, v)] | _ \<Rightarrow> []) tr)"

definition failed :: "event list \<Rightarrow> nat list" where
  "failed tr = concat (map (\<lambda>e. case e of EFail p \<Rightarrow> [p] | _ \<Rightarrow> []) tr)"

text \<open>The jobs that belong to the queue's current task; a detached branch is not one.\<close>

fun of_queue :: "job \<Rightarrow> bool" where
  "of_queue (Detached c ctx own) = False"
| "of_queue j = True"

definition qjobs :: "state \<Rightarrow> job list" where
  "qjobs s = filter of_queue (micro s @ macro s)"

text \<open>
  A monitor for serial first-in-first-out execution. It reads the observations in
  order and keeps the tasks pushed and not yet begun, whether the worker has been
  called for the oldest of them, and the phase of the queue: no body executing, the
  body of one task executing, or stalled after a failure. It refuses (with \<open>None\<close>,
  for good) a worker call or a body that is out of turn or comes while a body is
  executing, and an end or failure of a body that is not the one executing.
\<close>

datatype phase = Idle | Exec nat | Stalled

type_synonym monitor = "nat list \<times> bool \<times> phase"

fun mon_step :: "monitor option \<Rightarrow> event \<Rightarrow> monitor option" where
  "mon_step None e = None"
| "mon_step (Some (wl, st, ph)) (EPush p c par) = Some (wl @ [p], st, ph)"
| "mon_step (Some (wl, st, ph)) (EStart p ty tok) =
     (case wl of [] \<Rightarrow> None
      | x # r \<Rightarrow> if ph = Idle \<and> \<not> st \<and> x = p then Some (wl, True, ph) else None)"
| "mon_step (Some (wl, st, ph)) (EBegin p sto) =
     (case wl of [] \<Rightarrow> None
      | x # r \<Rightarrow> if ph = Idle \<and> st \<and> x = p then Some (r, False, Exec p) else None)"
| "mon_step (Some (wl, st, ph)) (EEnd p b v) =
     (if ph = Exec p then Some (wl, st, Idle) else None)"
| "mon_step (Some (wl, st, ph)) (EFail p) =
     (if ph = Exec p then Some (wl, st, Stalled) else None)"
| "mon_step (Some (wl, st, ph)) (EInvoke c h a) = Some (wl, st, ph)"

definition mon :: "event list \<Rightarrow> monitor option" where
  "mon tr = foldl mon_step (Some ([], False, Idle)) tr"

text \<open>
  How the state of the program and the state of the monitor fit: by the job of the
  queue that is scheduled (there is at most one), with the tasks waiting in the queue.
\<close>

fun agrees :: "job list \<Rightarrow> nat list \<Rightarrow> monitor \<Rightarrow> bool" where
  "agrees [] w (wl, st, ph) = (wl = w \<and> \<not> st \<and> ph \<noteq> Idle)"
| "agrees [Immediate it tok] w (wl, st, ph) = (wl = q_done it # w \<and> st \<and> ph = Idle)"
| "agrees [Main c ctx it] w (wl, st, ph) = (wl = w \<and> \<not> st \<and> ph = Exec (q_done it))"
| "agrees [Reaction it v] w (wl, st, ph) = (wl = w \<and> \<not> st \<and> ph = Idle)"
| "agrees js w m = False"

definition serial :: "state \<Rightarrow> bool" where
  "serial s \<longleftrightarrow>
     concurrency (queue_of s) = 1 \<and>
     (running (queue_of s) = 0 \<and> waiting (queue_of s) = [] \<and> qjobs s = [] \<and>
        mon (trace s) = Some ([], False, Idle)
      \<or> running (queue_of s) = 1 \<and> asyncStorage s \<and>
        (\<exists>m. mon (trace s) = Some m \<and>
             agrees (qjobs s) (map q_done (waiting (queue_of s))) m))"

text \<open>The state while the job of the queue is running, or when there is none left.\<close>

definition stuck :: "phase \<Rightarrow> state \<Rightarrow> bool" where
  "stuck ph s \<longleftrightarrow>
     concurrency (queue_of s) = 1 \<and> running (queue_of s) = 1 \<and> asyncStorage s \<and>
     qjobs s = [] \<and> mon (trace s) = Some (map q_done (waiting (queue_of s)), False, ph)"

text \<open>The entry that \<open>wrappedFunction\<close> pushes.\<close>

definition task_item ::
    "EventHandler \<Rightarrow> IGatsbyPlugin \<Rightarrow> nat \<Rightarrow> string option \<Rightarrow> nat \<Rightarrow> qitem" where
  "task_item f p a ctx n =
     \<lparr>q_task = \<lparr>t_type = cl_type f, t_handler = cl_handler f, t_args = a, t_parent = ctx,
                t_plugin = p\<rparr>, q_done = n\<rparr>"

subsection \<open>Sample data\<close>

definition echo :: EventHandlerArg where
  "echo a p = Return (Plain a)"

text \<open>A handler that returns the object \<open>{then: 1, ...}\<close>, which is no promise.\<close>

definition marked :: EventHandlerArg where
  "marked a p = Return (Marked a)"

definition thrower :: EventHandlerArg where
  "thrower a p = Throw ''boom''"

definition event_def ::
    "string option \<Rightarrow> string option \<Rightarrow> EventHandlerArg option \<Rightarrow> ISourceEventArgs" where
  "event_def t d h = \<lparr>d_type = t, d_description = d, d_meta = None, d_handler = h\<rparr>"

definition pl :: IGatsbyPlugin where
  "pl = \<lparr>plugin_id = ''7'', plugin_name = ''source-x'', pluginOptions = []\<rparr>"

definition gen :: "nat \<Rightarrow> string" where
  "gen n = (if n = 0 then ''00000000-0000-4000-8000-000000000000''
            else if n = 1 then ''11111111-1111-4111-8111-111111111111''
            else ''22222222-2222-4222-8222-222222222222'')"

definition unregistered_state :: state where
  "unregistered_state = run gen [Define (event_def (Some ''A'') (Some ''d'') (Some echo))]"

text \<open>Every handler object of the heap has the \<open>type\<close> property as it was defined.\<close>

definition frozen :: "state \<Rightarrow> bool" where
  "frozen s \<longleftrightarrow>
     (\<forall>f \<in> set (handlers s). \<not> writable (type_prop f) \<and> \<not> configurable (type_prop f))"

definition later :: EventHandlerArg where
  "later a p = Await (Invoke 0 1 (Sleep (Return (Plain (Suc a)))))"

definition both_registered :: "action list" where
  "both_registered =
     [Define (event_def (Some ''A'') (Some ''d'') (Some echo)),
      Define (event_def (Some ''B'') (Some ''d'') (Some later)),
      Write 0 (AssignPlugin (Some pl)), Write 1 (AssignPlugin (Some pl))]"

definition nested_run :: "action list" where
  "nested_run = both_registered @ [Call 1 5, Call 0 7, Tick, Tick, Tick, Tick, Tick, Tick]"

text \<open>
  The futures of the tasks that the queue and the event loop still hold: each is
  pending, and no two tasks share one. The first argument lists the futures of the
  task whose job is running and so is in neither place.
\<close>

fun job_ids :: "job \<Rightarrow> nat list" where
  "job_ids (Immediate it tok) = [q_done it]"
| "job_ids (Main c ctx it) = [q_done it]"
| "job_ids (Reaction it v) = [q_done it]"
| "job_ids (Detached c ctx own) = []"

definition ids :: "state \<Rightarrow> nat list" where
  "ids s = concat (map job_ids (micro s @ macro s)) @ map q_done (waiting (queue_of s))"

definition pending_all :: "settle list \<Rightarrow> nat list \<Rightarrow> bool" where
  "pending_all fs L \<longleftrightarrow> distinct L \<and> (\<forall>p \<in> set L. p < length fs \<and> fs ! p = Pending)"

definition pend :: "nat list \<Rightarrow> state \<Rightarrow> bool" where
  "pend X s \<longleftrightarrow> pending_all (futures s) (X @ ids s)"

text \<open>
  What has become of the futures. A body that completed with \<open>v\<close> has its future
  resolved with \<open>v\<close>, or, if it completed by the resolution of its promise, the
  worker's reaction with \<open>v\<close> is among the microtasks (never among the macrotasks).
  Conversely a future is resolved
  only with the value its body completed with, and rejected only as the future of a call
  of an unregistered handler.
\<close>

definition answered :: "state \<Rightarrow> bool" where
  "answered s \<longleftrightarrow>
     (\<forall>p b v. (p, b, v) \<in> set (results (trace s)) \<longrightarrow>
        p < length (futures s) \<and>
        (futures s ! p = Resolved v \<or>
         b \<and> (\<exists>it. q_done it = p \<and> Reaction it v \<in> set (micro s))))"

definition fates :: "state \<Rightarrow> bool" where
  "fates s \<longleftrightarrow>
     (\<forall>it v. Reaction it v \<in> set (micro s) \<longrightarrow> (q_done it, True, v) \<in> set (results (trace s))) \<and>
     (\<forall>it v. Reaction it v \<notin> set (macro s)) \<and>
     (\<forall>p v. p < length (futures s) \<and> futures s ! p = Resolved v \<longrightarrow>
        (\<exists>b. (p, b, v) \<in> set (results (trace s)))) \<and>
     (\<forall>p e. p < length (futures s) \<and> futures s ! p = Rejected e \<longrightarrow>
        e = ''Please make sure you registered the function'' \<and> p \<notin> set (pushed (trace s))) \<and>
     distinct (pushed (trace s)) \<and> (\<forall>p \<in> set (pushed (trace s)). p < length (futures s))"

definition kept :: "nat list \<Rightarrow> state \<Rightarrow> bool" where
  "kept X s \<longleftrightarrow> pend X s \<and> answered s \<and> fates s"

definition rejecter :: EventHandlerArg where
  "rejecter a p = Await (Throw ''late'')"

definition failing_run :: "EventHandlerArg \<Rightarrow> action list" where
  "failing_run h =
     [Define (event_def (Some ''A'') (Some ''d'') (Some h)),
      Define (event_def (Some ''B'') (Some ''d'') (Some echo)),
      Write 0 (AssignPlugin (Some pl)), Write 1 (AssignPlugin (Some pl)),
      Call 0 5, Tick, Tick, Tick, Call 1 7, Tick, Tick, Tick, Tick]"

text \<open>
  How one step changes the promise store and the microtask queue: promises are added,
  a settled promise stays as it is, and microtasks are added at the end.
\<close>

definition grows :: "settle list \<Rightarrow> settle list \<Rightarrow> bool" where
  "grows fs fs' \<longleftrightarrow>
     length fs \<le> length fs' \<and> (\<forall>p < length fs. fs ! p \<noteq> Pending \<longrightarrow> fs' ! p = fs ! p)"

definition extends :: "state \<Rightarrow> state \<Rightarrow> bool" where
  "extends s s' \<longleftrightarrow> grows (futures s) (futures s') \<and> (\<exists>ext. micro s' = micro s @ ext)"

definition promise_run :: "action list" where
  "promise_run = both_registered @ [Call 1 5, Tick, Tick, Tick]"

text \<open>
  The store that a job or a call carries belongs to the task it runs for: outside
  every task there is no store; inside the execution of a task the store is a token
  that the worker generated for that task.
\<close>

fun linked :: "event list \<Rightarrow> nat option \<Rightarrow> string option \<Rightarrow> bool" where
  "linked tr None ctx = (ctx = None)"
| "linked tr (Some p) ctx = (\<exists>ty tok. ctx = Some tok \<and> EStart p ty tok \<in> set tr)"

fun job_scoped :: "event list \<Rightarrow> job \<Rightarrow> bool" where
  "job_scoped tr (Immediate it tok) = (EStart (q_done it) (t_type (q_task it)) tok \<in> set tr)"
| "job_scoped tr (Main c ctx it) = linked tr (Some (q_done it)) ctx"
| "job_scoped tr (Detached c ctx own) = linked tr own ctx"
| "job_scoped tr (Reaction it v) = True"

definition scoped :: "state \<Rightarrow> bool" where
  "scoped s \<longleftrightarrow>
     (\<forall>j \<in> set (micro s @ macro s). job_scoped (trace s) j) \<and>
     (\<forall>p own par. EPush p own par \<in> set (trace s) \<longrightarrow> linked (trace s) own par) \<and>
     (\<forall>p st. EBegin p st \<in> set (trace s) \<longrightarrow> linked (trace s) (Some p) st)"

text \<open>The \<open>k\<close>-th call of the worker made its token from the task's type and the \<open>k\<close>-th uuid.\<close>

definition numbered :: "(nat \<Rightarrow> string) \<Rightarrow> state \<Rightarrow> bool" where
  "numbered g s \<longleftrightarrow>
     rng s = g \<and> length (started (trace s)) = drawn s \<and>
     (\<forall>k < drawn s. snd (snd (started (trace s) ! k))
                      = fst (snd (started (trace s) ! k)) @ ''-'' @ g k)"

text \<open>The entries that the event loop and the queue hold.\<close>

fun job_items :: "job \<Rightarrow> qitem list" where
  "job_items (Immediate it tok) = [it]"
| "job_items (Main c ctx it) = [it]"
| "job_items (Reaction it v) = [it]"
| "job_items (Detached c ctx own) = []"

definition held :: "state \<Rightarrow> qitem list" where
  "held s = concat (map job_items (micro s @ macro s)) @ waiting (queue_of s)"

definition tokens :: "event list \<Rightarrow> string list" where
  "tokens tr = map (\<lambda>x. snd (snd x)) (started tr)"

definition registered_state :: state where
  "registered_state = run gen both_registered"

definition busy_state :: state where
  "busy_state = run gen (both_registered @ [Call 0 5])"

definition second_item :: qitem where
  "second_item = task_item (wrapHandlerWithEventTracking ''A'' echo) pl 7 None 1"

definition first_item :: qitem where
  "first_item = task_item (wrapHandlerWithEventTracking ''A'' echo) pl 5 None 0"

section \<open>The handler heap is not touched by the queue\<close>

lemma handlers_observe [simp]: "handlers (observe e s) = handlers s"
  by (simp add: observe_def)

lemma handlers_escape [simp]: "handlers (escape e s) = handlers s"
  by (simp add: escape_def)

lemma handlers_reject_unhandled [simp]: "handlers (reject_unhandled e s) = handlers s"
  by (simp add: reject_unhandled_def)

lemma handlers_report [simp]: "handlers (report s) = handlers s"
  by (simp add: report_def)

lemma handlers_schedule [simp]: "handlers (schedule k j s) = handlers s"
  by (simp add: schedule_def split: tickq.splits)

lemma handlers_settle_future [simp]: "handlers (settle_future p st s) = handlers s"
  by (simp add: settle_future_def)

lemma handlers_getQueue [simp]: "handlers (getQueue s) = handlers s"
  by (simp add: getQueue_def split: option.splits)

lemma handlers_worker [simp]: "handlers (worker it s) = handlers s"
  by (simp add: worker_def Let_def)

lemma handlers_fq_push [simp]: "handlers (fq_push own it s) = handlers s"
  by (simp add: fq_push_def Let_def)

lemma handlers_fq_release [simp]: "handlers (fq_release s) = handlers s"
  by (simp add: fq_release_def Let_def split: list.splits)

lemma handlers_fq_worked [simp]: "handlers (fq_worked it err v s) = handlers s"
  by (simp add: fq_worked_def pushCallback_def split: option.splits)

lemma handlers_wrappedFunction [simp]:
  "handlers (snd (wrappedFunction own ctx h a s)) = handlers s"
  by (simp add: wrappedFunction_def pushTaskToQueue_def new_future_def Let_def
           split: option.splits)

lemma discard_cases: "discard r = snd r \<or> (\<exists>e. discard r = reject_unhandled e (snd r))"
  by (auto simp: discard_def split: list.splits settle.splits)

lemma discard_simps [simp]:
  "handlers (discard r) = handlers (snd r)" "trace (discard r) = trace (snd r)"
  "micro (discard r) = micro (snd r)" "macro (discard r) = macro (snd r)"
  "futures (discard r) = futures (snd r)" "eventSystemQueue (discard r) = eventSystemQueue (snd r)"
  "asyncStorage (discard r) = asyncStorage (snd r)" "rng (discard r) = rng (snd r)"
  "drawn (discard r) = drawn (snd r)"
  "uncaught (discard r) = uncaught (snd r)"
  using discard_cases [of r] by (auto simp: reject_unhandled_def)

lemma handlers_exec [simp]: "handlers (snd (exec own ctx c s)) = handlers s"
  by (induction c arbitrary: s) simp_all

lemma handlers_take_then [simp]: "handlers (take_then it x s) = handlers s"
  by (simp add: take_then_def split: reply.splits)

lemma handlers_resolve_main [simp]: "handlers (resolve_main ctx it x s) = handlers s"
  by (simp add: resolve_main_def split: val.splits reply.splits)

lemma handlers_finish [simp]: "handlers (finish j r) = handlers (snd r)"
  by (simp add: finish_def split: job.splits outcome.splits)

lemma handlers_run_job [simp]: "handlers (run_job j s) = handlers s"
  by (simp add: run_job_def call_handler_def split: job.splits)

lemma handlers_tick [simp]: "handlers (tick s) = handlers s"
  by (simp add: tick_def split: list.splits)

lemma handlers_runEvent [simp]: "handlers (snd (runEvent own ctx hs n a s)) = handlers s"
  by (induction hs arbitrary: s) simp_all

section \<open>The queue runs one task at a time, in the order of submission\<close>

lemma mon_snoc: "mon (tr @ [e]) = mon_step (mon tr) e"
  by (simp add: mon_def)

lemma mon_append: "mon (tr @ es) = foldl mon_step (mon tr) es"
  by (simp add: mon_def)

lemma mon_step_None: "foldl mon_step None es = None"
  by (induction es) simp_all

lemma mon_prefix: "mon (tr @ es) \<noteq> None \<Longrightarrow> mon tr \<noteq> None"
  by (cases "mon tr") (simp_all add: mon_append mon_step_None)

lemma mon_take: "mon tr \<noteq> None \<Longrightarrow> mon (take n tr) \<noteq> None"
  using mon_prefix [of "take n tr" "drop n tr"] by simp

lemma pushed_simps [simp]:
  "pushed [] = []" "pushed (tr @ es) = pushed tr @ pushed es"
  "pushed (EPush p c par # es) = p # pushed es" "pushed (EInvoke c h a # es) = pushed es"
  "pushed (EStart p ty tok # es) = pushed es" "pushed (EBegin p st # es) = pushed es"
  "pushed (EEnd p b v # es) = pushed es" "pushed (EFail p # es) = pushed es"
  by (simp_all add: pushed_def)

lemma begun_simps [simp]:
  "begun [] = []" "begun (tr @ es) = begun tr @ begun es"
  "begun (EPush p c par # es) = begun es" "begun (EInvoke c h a # es) = begun es"
  "begun (EStart p ty tok # es) = begun es" "begun (EBegin p st # es) = p # begun es"
  "begun (EEnd p b v # es) = begun es" "begun (EFail p # es) = begun es"
  by (simp_all add: begun_def)

lemma ended_simps [simp]:
  "ended [] = []" "ended (tr @ es) = ended tr @ ended es"
  "ended (EPush p c par # es) = ended es" "ended (EInvoke c h a # es) = ended es"
  "ended (EStart p ty tok # es) = ended es" "ended (EBegin p st # es) = ended es"
  "ended (EEnd p b v # es) = p # ended es" "ended (EFail p # es) = ended es"
  by (simp_all add: ended_def)

lemma failed_simps [simp]:
  "failed [] = []" "failed (tr @ es) = failed tr @ failed es"
  "failed (EPush p c par # es) = failed es" "failed (EInvoke c h a # es) = failed es"
  "failed (EStart p ty tok # es) = failed es" "failed (EBegin p st # es) = failed es"
  "failed (EEnd p b v # es) = failed es" "failed (EFail p # es) = p # failed es"
  by (simp_all add: failed_def)

lemma started_simps [simp]:
  "started [] = []" "started (tr @ es) = started tr @ started es"
  "started (EPush p c par # es) = started es" "started (EInvoke c h a # es) = started es"
  "started (EStart p ty tok # es) = (p, ty, tok) # started es"
  "started (EBegin p st # es) = started es" "started (EEnd p b v # es) = started es"
  "started (EFail p # es) = started es"
  by (simp_all add: started_def)

lemma results_simps [simp]:
  "results [] = []" "results (tr @ es) = results tr @ results es"
  "results (EPush p c par # es) = results es" "results (EInvoke c h a # es) = results es"
  "results (EStart p ty tok # es) = results es" "results (EBegin p st # es) = results es"
  "results (EEnd p b v # es) = (p, b, v) # results es" "results (EFail p # es) = results es"
  by (simp_all add: results_def)

lemma ended_results: "ended tr = map fst (results tr)"
proof (induction tr)
  case Nil
  show ?case by simp
next
  case (Cons e tr)
  then show ?case by (cases e) simp_all
qed

lemma invocations_simps [simp]:
  "invocations [] = []" "invocations (tr @ es) = invocations tr @ invocations es"
  "invocations (EPush p c par # es) = invocations es"
  "invocations (EInvoke c h a # es) = (h, a) # invocations es"
  "invocations (EStart p ty tok # es) = invocations es"
  "invocations (EBegin p st # es) = invocations es"
  "invocations (EEnd p b v # es) = invocations es"
  "invocations (EFail p # es) = invocations es"
  by (simp_all add: invocations_def)

text \<open>What the monitor's state says about the trace it accepted.\<close>

lemma mon_shape:
  "mon tr = Some (wl, st, ph) \<Longrightarrow>
     pushed tr = begun tr @ wl \<and>
     map fst (started tr) = begun tr @ (if st then [hd wl] else []) \<and>
     (st \<longrightarrow> wl \<noteq> []) \<and>
     (case ph of
        Idle \<Rightarrow> begun tr = ended tr \<and> failed tr = []
      | Exec p \<Rightarrow> begun tr = ended tr @ [p] \<and> failed tr = []
      | Stalled \<Rightarrow> (\<exists>p. begun tr = ended tr @ [p] \<and> failed tr = [p]))"
proof (induction tr arbitrary: wl st ph rule: rev_induct)
  case Nil
  then show ?case by (simp add: mon_def)
next
  case (snoc e tr)
  from snoc.prems obtain wl0 st0 ph0 where m0: "mon tr = Some (wl0, st0, ph0)"
    by (cases "mon tr") (auto simp: mon_snoc)
  note ih = snoc.IH [OF m0]
  from snoc.prems m0 have st: "mon_step (Some (wl0, st0, ph0)) e = Some (wl, st, ph)"
    by (simp add: mon_snoc)
  show ?case
  proof (cases e)
    case (EBegin p st')
    with st ih show ?thesis
      by (cases wl0) (auto split: if_splits phase.splits)
  next
    case (EEnd p b v)
    with st ih show ?thesis by (auto split: if_splits phase.splits)
  next
    case (EFail p)
    with st ih show ?thesis by (auto split: if_splits phase.splits)
  next
    case (EPush p c par)
    with st ih show ?thesis by (auto split: phase.splits)
  next
    case (EInvoke c h a)
    with st ih show ?thesis by (auto split: phase.splits)
  next
    case (EStart p ty tok)
    with st ih show ?thesis
      by (cases wl0) (auto split: if_splits phase.splits)
  qed
qed

lemma task_item_simps [simp]:
  "q_done (task_item f p a ctx n) = n"
  "t_parent (q_task (task_item f p a ctx n)) = ctx"
  "t_type (q_task (task_item f p a ctx n)) = cl_type f"
  "t_handler (q_task (task_item f p a ctx n)) = cl_handler f"
  "t_args (q_task (task_item f p a ctx n)) = a"
  "t_plugin (q_task (task_item f p a ctx n)) = p"
  by (simp_all add: task_item_def)

lemma wrappedFunction_unregistered:
  assumes "pvalue (plugin_prop (handlers s ! h)) = None"
  shows "wrappedFunction own ctx h a s =
           (length (futures s),
            s\<lparr>futures := futures s @ [Rejected ''Please make sure you registered the function''],
              trace := trace s @ [EInvoke own h a]\<rparr>)"
  using assms by (simp add: wrappedFunction_def observe_def new_future_def Let_def)

lemma wrappedFunction_busy:
  assumes "pvalue (plugin_prop (handlers s ! h)) = Some p"
    and "concurrency (queue_of s) \<le> running (queue_of s)"
  shows "wrappedFunction own ctx h a s =
           (length (futures s),
            s\<lparr>futures := futures s @ [Pending],
              asyncStorage := True,
              eventSystemQueue := Some ((queue_of s)\<lparr>waiting := waiting (queue_of s) @
                 [task_item (handlers s ! h) p a ctx (length (futures s))]\<rparr>),
              trace := trace s @ [EInvoke own h a, EPush (length (futures s)) own ctx]\<rparr>)"
  using assms
  by (simp add: wrappedFunction_def observe_def new_future_def Let_def pushTaskToQueue_def
      fq_push_def getQueue_def queue_of_def task_item_def split: option.splits)

lemma wrappedFunction_idle:
  assumes "pvalue (plugin_prop (handlers s ! h)) = Some p"
    and "running (queue_of s) < concurrency (queue_of s)"
  shows "wrappedFunction own ctx h a s =
           (length (futures s),
            s\<lparr>futures := futures s @ [Pending],
              asyncStorage := True,
              eventSystemQueue := Some ((queue_of s)\<lparr>running := Suc (running (queue_of s))\<rparr>),
              drawn := Suc (drawn s),
              macro := macro s @ [Immediate (task_item (handlers s ! h) p a ctx (length (futures s)))
                  (cl_type (handlers s ! h) @ ''-'' @ rng s (drawn s))],
              trace := trace s @ [EInvoke own h a, EPush (length (futures s)) own ctx,
                 EStart (length (futures s)) (cl_type (handlers s ! h))
                   (cl_type (handlers s ! h) @ ''-'' @ rng s (drawn s))]\<rparr>)"
  using assms
  by (simp add: wrappedFunction_def observe_def new_future_def Let_def pushTaskToQueue_def
      fq_push_def getQueue_def queue_of_def task_item_def worker_def split: option.splits)

lemma serial_wrappedFunction:
  assumes "serial s"
  shows "serial (snd (wrappedFunction own ctx h a s))"
proof (cases "pvalue (plugin_prop (handlers s ! h))")
  case None
  with assms show ?thesis
    by (auto simp: wrappedFunction_unregistered serial_def queue_of_def qjobs_def mon_append)
next
  case (Some p)
  show ?thesis
  proof (cases "running (queue_of s) < concurrency (queue_of s)")
    case True
    with Some assms show ?thesis
      by (auto simp: wrappedFunction_idle serial_def queue_of_def qjobs_def mon_append)
  next
    case False
    with Some assms show ?thesis
      apply (simp add: wrappedFunction_busy)
      apply (auto simp: serial_def queue_of_def qjobs_def mon_append elim!: agrees.elims)
      done
  qed
qed


lemma stuck_serial: "stuck ph s \<Longrightarrow> ph \<noteq> Idle \<Longrightarrow> serial s"
  by (auto simp: stuck_def serial_def)

lemma stuck_wrappedFunction:
  assumes "stuck ph s"
  shows "stuck ph (snd (wrappedFunction own ctx h a s))"
proof (cases "pvalue (plugin_prop (handlers s ! h))")
  case None
  with assms show ?thesis
    by (auto simp: wrappedFunction_unregistered stuck_def queue_of_def qjobs_def mon_append)
next
  case (Some p)
  with assms show ?thesis
    by (auto simp: wrappedFunction_busy stuck_def queue_of_def qjobs_def mon_append)
qed

lemma serial_fork: "serial s \<Longrightarrow> serial (schedule k (Detached d ctx own) s)"
  by (cases k) (auto simp: serial_def schedule_def queue_of_def qjobs_def)

lemma stuck_fork: "stuck ph s \<Longrightarrow> stuck ph (schedule k (Detached d ctx own) s)"
  by (cases k) (auto simp: stuck_def schedule_def queue_of_def qjobs_def)

lemma serial_escape: "serial s \<Longrightarrow> serial (escape e s)"
  by (auto simp: serial_def escape_def queue_of_def qjobs_def)

lemma stuck_escape: "stuck ph s \<Longrightarrow> stuck ph (escape e s)"
  by (auto simp: stuck_def escape_def queue_of_def qjobs_def)

lemma serial_reject_unhandled: "serial s \<Longrightarrow> serial (reject_unhandled e s)"
  by (auto simp: serial_def reject_unhandled_def queue_of_def qjobs_def)

lemma stuck_reject_unhandled: "stuck ph s \<Longrightarrow> stuck ph (reject_unhandled e s)"
  by (auto simp: stuck_def reject_unhandled_def queue_of_def qjobs_def)

lemma serial_report: "serial s \<Longrightarrow> serial (report s)"
  by (auto simp: serial_def report_def queue_of_def qjobs_def)

lemma serial_discard: "serial (snd r) \<Longrightarrow> serial (discard r)"
  using discard_cases [of r] by (auto simp: serial_reject_unhandled)

lemma stuck_discard: "stuck ph (snd r) \<Longrightarrow> stuck ph (discard r)"
  using discard_cases [of r] by (auto simp: stuck_reject_unhandled)

lemma serial_exec: "serial s \<Longrightarrow> serial (snd (exec own ctx c s))"
  by (induction c arbitrary: s)
     (simp_all add: serial_wrappedFunction serial_fork serial_discard)

lemma stuck_exec: "stuck ph s \<Longrightarrow> stuck ph (snd (exec own ctx c s))"
  by (induction c arbitrary: s)
     (simp_all add: stuck_wrappedFunction stuck_fork stuck_discard)

text \<open>The worker's callback, called while no job of the queue is left.\<close>

lemma serial_fq_worked:
  assumes "stuck Idle s"
  shows "serial (fq_worked it err v s)"
proof (cases "waiting (queue_of s)")
  case Nil
  with assms show ?thesis
    by (auto simp: stuck_def serial_def fq_worked_def fq_release_def pushCallback_def
        settle_future_def queue_of_def qjobs_def Let_def split: option.splits)
next
  case (Cons n rest)
  with assms show ?thesis
    by (auto simp: stuck_def serial_def fq_worked_def fq_release_def pushCallback_def
        settle_future_def queue_of_def qjobs_def Let_def worker_def observe_def mon_append
        split: option.splits)
qed

lemma stuck_observe_begin:
  assumes "concurrency (queue_of s) = 1" "running (queue_of s) = 1" "asyncStorage s"
    "qjobs s = []" "mon (trace s) = Some (p # map q_done (waiting (queue_of s)), True, Idle)"
  shows "stuck (Exec p) (observe (EBegin p st) s)"
  using assms by (auto simp: stuck_def observe_def queue_of_def qjobs_def mon_append)

lemma stuck_observe_end:
  "stuck (Exec p) s \<Longrightarrow> stuck Idle (observe (EEnd p b v) s)"
  by (auto simp: stuck_def observe_def queue_of_def qjobs_def mon_append)

lemma stuck_observe_fail:
  "stuck (Exec p) s \<Longrightarrow> stuck Stalled (observe (EFail p) s)"
  by (auto simp: stuck_def observe_def queue_of_def qjobs_def mon_append)

lemma serial_schedule_main:
  "stuck (Exec (q_done it)) s \<Longrightarrow> serial (schedule k (Main c ctx it) s)"
  by (cases k) (auto simp: stuck_def serial_def schedule_def queue_of_def qjobs_def)

lemma serial_schedule_reaction:
  "stuck Idle s \<Longrightarrow> serial (schedule k (Reaction it v) s)"
  by (cases k) (auto simp: stuck_def serial_def schedule_def queue_of_def qjobs_def)

lemma serial_fail:
  "stuck (Exec p) s \<Longrightarrow> serial (escape e (observe (EFail p) s))"
  by (rule serial_escape, rule stuck_serial [where ph = Stalled], rule stuck_observe_fail) simp_all

lemma serial_rejection:
  "stuck (Exec p) s \<Longrightarrow> serial (reject_unhandled e (observe (EFail p) s))"
  by (rule serial_reject_unhandled, rule stuck_serial [where ph = Stalled],
      rule stuck_observe_fail) simp_all

lemma serial_take_then:
  assumes "stuck (Exec (q_done it)) s"
  shows "serial (take_then it x s)"
  using assms
  by (cases "call_then x")
     (auto simp: take_then_def serial_fq_worked stuck_observe_end serial_fail
        intro: stuck_serial)

lemma serial_resolve_main:
  assumes "stuck (Exec (q_done it)) s"
  shows "serial (resolve_main ctx it x s)"
  using assms
  by (auto simp: resolve_main_def stuck_observe_end serial_rejection serial_schedule_main
        serial_schedule_reaction intro: stuck_serial split: val.splits reply.splits)

lemma serial_finish_immediate:
  assumes "stuck (Exec (q_done it)) (snd r)"
  shows "serial (finish (Immediate it tok) r)"
  using assms
  by (cases "fst r")
     (auto simp: finish_def serial_fq_worked stuck_observe_end serial_fail serial_take_then
        serial_schedule_main intro: stuck_serial)

lemma serial_finish_main:
  assumes "stuck (Exec (q_done it)) (snd r)"
  shows "serial (finish (Main c ctx it) r)"
  using assms
  by (cases "fst r")
     (auto simp: finish_def serial_resolve_main serial_rejection
        serial_schedule_main intro: stuck_serial)

lemma serial_finish_detached:
  assumes "serial (snd r)"
  shows "serial (finish (Detached c ctx own) r)"
  using assms
  by (cases "fst r") (auto simp: finish_def serial_reject_unhandled serial_fork)


text \<open>Taking a job off a queue and running it.\<close>

lemma serial_run_job:
  assumes ser: "serial s"
    and pop: "qjobs s = filter of_queue [j] @ qjobs s0"
    and same: "eventSystemQueue s0 = eventSystemQueue s" "trace s0 = trace s"
      "asyncStorage s0 = asyncStorage s"
  shows "serial (run_job j s0)"
proof (cases j)
  case (Detached c ctx own)
  with ser pop same have "serial s0"
    by (simp add: serial_def queue_of_def)
  then show ?thesis
    by (simp add: Detached run_job_def serial_finish_detached serial_exec)
next
  case (Immediate it tok)
  with ser pop same have
    "concurrency (queue_of s0) = 1" "running (queue_of s0) = 1" "asyncStorage s0"
    "qjobs s0 = []"
    "mon (trace s0) = Some (q_done it # map q_done (waiting (queue_of s0)), True, Idle)"
    by (auto simp: serial_def queue_of_def elim!: agrees.elims)
  then have "stuck (Exec (q_done it)) (observe (EBegin (q_done it) (Some tok)) s0)"
    by (rule stuck_observe_begin)
  then show ?thesis
    by (simp add: Immediate run_job_def call_handler_def serial_finish_immediate stuck_exec)
next
  case (Main c ctx it)
  with ser pop same have "stuck (Exec (q_done it)) s0"
    by (auto simp: serial_def stuck_def queue_of_def elim!: agrees.elims)
  then show ?thesis
    by (simp add: Main run_job_def serial_finish_main stuck_exec)
next
  case (Reaction it v)
  with ser pop same have "stuck Idle s0"
    by (auto simp: serial_def stuck_def queue_of_def elim!: agrees.elims)
  then show ?thesis
    by (simp add: Reaction run_job_def serial_fq_worked)
qed

lemma serial_tick: "serial s \<Longrightarrow> serial (tick s)"
proof (cases "micro s")
  case (Cons j js)
  assume "serial s"
  then have "serial (run_job j (s\<lparr>micro := js\<rparr>))"
    by (rule serial_run_job) (simp_all add: qjobs_def Cons)
  then show ?thesis by (simp add: tick_def Cons)
next
  case Nil
  assume ser: "serial s"
  show ?thesis
  proof (cases "macro s")
    case (Cons j js)
    from ser have "serial (run_job j ((report s)\<lparr>macro := js\<rparr>))"
      by (rule serial_run_job) (simp_all add: qjobs_def report_def Cons Nil)
    then show ?thesis by (simp add: tick_def Cons Nil)
  next
    case Nil': Nil
    with Nil ser show ?thesis by (simp add: tick_def serial_report)
  qed
qed

lemma serial_runEvent: "serial s \<Longrightarrow> serial (snd (runEvent own ctx hs n a s))"
  by (induction hs arbitrary: s)
     (simp_all add: serial_wrappedFunction serial_escape serial_discard)

lemma serial_handlers: "serial s \<Longrightarrow> serial (s\<lparr>handlers := hs\<rparr>)"
  by (simp add: serial_def queue_of_def qjobs_def)

lemma serial_act: "serial s \<Longrightarrow> serial (act s x)"
  by (cases x)
     (auto simp: serial_tick serial_runEvent serial_wrappedFunction serial_escape
        serial_handlers split: sum.splits)

lemma serial_init: "serial (init g)"
  by (simp add: serial_def init_def queue_of_def qjobs_def fastq_new_def mon_def)

lemma serial_run: "serial (run g as)"
  by (induction as rule: rev_induct) (simp_all add: run_def serial_init serial_act)

section \<open>Definition, registration and dispatch\<close>

lemma wrappedFunction_cases:
  obtains (unregistered) "pvalue (plugin_prop (handlers s ! h)) = None"
  | (busy) p where "pvalue (plugin_prop (handlers s ! h)) = Some p"
      "concurrency (queue_of s) \<le> running (queue_of s)"
  | (idle) p where "pvalue (plugin_prop (handlers s ! h)) = Some p"
      "running (queue_of s) < concurrency (queue_of s)"
proof (cases "pvalue (plugin_prop (handlers s ! h))")
  case None
  then show ?thesis by (rule unregistered)
next
  case (Some p)
  show ?thesis
  proof (cases "running (queue_of s) < concurrency (queue_of s)")
    case True
    with Some show ?thesis by (rule idle)
  next
    case False
    then have "concurrency (queue_of s) \<le> running (queue_of s)" by simp
    with Some show ?thesis by (rule busy)
  qed
qed

lemma wrappedFunction_trace:
  "invocations (trace (snd (wrappedFunction own ctx h a s))) = invocations (trace s) @ [(h, a)]"
  "begun (trace (snd (wrappedFunction own ctx h a s))) = begun (trace s)"
  "ended (trace (snd (wrappedFunction own ctx h a s))) = ended (trace s)"
  "failed (trace (snd (wrappedFunction own ctx h a s))) = failed (trace s)"
  "micro (snd (wrappedFunction own ctx h a s)) = micro s"
  by (cases s h rule: wrappedFunction_cases;
      simp add: wrappedFunction_unregistered wrappedFunction_busy wrappedFunction_idle)+

lemma runEvent_trace:
  assumes "\<forall>e \<in> set hs. e < length (handlers s)"
  shows "invocations (trace (snd (runEvent own ctx hs n a s)))
           = invocations (trace s)
             @ map (\<lambda>e. (e, a)) (filter (\<lambda>e. pvalue (type_prop (handlers s ! e)) = n) hs)
         \<and> begun (trace (snd (runEvent own ctx hs n a s))) = begun (trace s)
         \<and> ended (trace (snd (runEvent own ctx hs n a s))) = ended (trace s)
         \<and> failed (trace (snd (runEvent own ctx hs n a s))) = failed (trace s)
         \<and> micro (snd (runEvent own ctx hs n a s)) = micro s
         \<and> fst (runEvent own ctx hs n a s) = Fulfilled"
  using assms
proof (induction hs arbitrary: s)
  case Nil
  show ?case by simp
next
  case (Cons e es)
  show ?case
  proof (cases "pvalue (type_prop (handlers s ! e)) = n")
    case True
    from Cons.prems have "\<forall>x \<in> set es. x < length (handlers (discard (wrappedFunction own ctx e a s)))"
      by simp
    from Cons.IH [OF this] Cons.prems True show ?thesis
      by (simp add: wrappedFunction_trace)
  next
    case False
    from Cons.prems have "\<forall>x \<in> set es. x < length (handlers s)" by simp
    from Cons.IH [OF this] Cons.prems False show ?thesis by simp
  qed
qed



lemma unregistered_state_handlers:
  "handlers unregistered_state = [wrapHandlerWithEventTracking ''A'' echo]"
  by (simp add: unregistered_state_def run_def init_def event_def_def defineSourceEvent_def)


text \<open>
  C10: the promise of \<open>runEvent\<close> on a list of handler objects is fulfilled, whatever
  becomes of the futures of the calls it made, which it drops; among them the future of
  a handler that was never registered, rejected on the spot and left as an unhandled
  rejection.
\<close>

theorem runEvent_fulfilled:
  assumes "\<forall>e \<in> set hs. e < length (handlers s)"
  shows "fst (runEvent own ctx hs n a s) = Fulfilled"
  using runEvent_trace [OF assms] by simp

theorem runEvent_fulfilled_witness:
  "0 < length (handlers unregistered_state)
   \<and> fst (runEvent None None [0] ''A'' 5 unregistered_state) = Fulfilled
   \<and> futures (snd (runEvent None None [0] ''A'' 5 unregistered_state))
       = [Rejected ''Please make sure you registered the function'']
   \<and> uncaught (tick (snd (runEvent None None [0] ''A'' 5 unregistered_state)))
       = [''Please make sure you registered the function'']"
proof -
  have h: "\<forall>e \<in> set [0]. e < length (handlers unregistered_state)"
    by (simp add: unregistered_state_handlers)
  have "futures (snd (runEvent None None [0] ''A'' 5 unregistered_state))
       = [Rejected ''Please make sure you registered the function'']"
    "uncaught (tick (snd (runEvent None None [0] ''A'' 5 unregistered_state)))
       = [''Please make sure you registered the function'']"
    by code_simp+
  with runEvent_fulfilled [OF h, of None None "''A''" 5] h show ?thesis by simp
qed

text \<open>
  C5: \<open>defineSourceEvent\<close> fails with the error that names the type when the type is
  absent or the empty string; otherwise with the one that names the description when
  that is absent or empty; otherwise with the one that names the handler when that is
  absent; otherwise it returns the wrapped function, whose \<open>type\<close> property is the
  type of the definition and whose \<open>plugin\<close> property is null.
\<close>

theorem defineSourceEvent_checks:
  "defineSourceEvent d =
     (if d_type d = None \<or> d_type d = Some [] then Inl ''Your event is missing a type name.''
      else if d_description d = None \<or> d_description d = Some []
           then Inl ''Please add a description to your event''
      else if d_handler d = None then Inl ''Please add a handler to your event''
      else Inr \<lparr>cl_type = the (d_type d), cl_handler = the (d_handler d),
                type_prop = \<lparr>pvalue = the (d_type d), writable = False, configurable = False\<rparr>,
                plugin_prop = \<lparr>pvalue = None, writable = True, configurable = False\<rparr>\<rparr>)"
proof (cases "d_type d")
  case None
  then show ?thesis by (simp add: defineSourceEvent_def)
next
  case ty: (Some t)
  show ?thesis
  proof (cases "d_description d")
    case None
    with ty show ?thesis by (simp add: defineSourceEvent_def)
  next
    case de: (Some x)
    show ?thesis
    proof (cases "d_handler d")
      case None
      with ty de show ?thesis by (simp add: defineSourceEvent_def)
    next
      case (Some h)
      with ty de show ?thesis
        by (simp add: defineSourceEvent_def wrapHandlerWithEventTracking_def defineProperty_def)
    qed
  qed
qed

theorem defineSourceEvent_checks_witness:
  "defineSourceEvent (event_def (Some []) (Some ''d'') (Some echo))
     = Inl ''Your event is missing a type name.''
   \<and> defineSourceEvent (event_def None None None)
     = Inl ''Your event is missing a type name.''
   \<and> defineSourceEvent (event_def (Some ''A'') None (Some echo))
     = Inl ''Please add a description to your event''
   \<and> defineSourceEvent (event_def (Some ''A'') (Some []) None)
     = Inl ''Please add a description to your event''
   \<and> defineSourceEvent (event_def (Some ''A'') (Some ''d'') None)
     = Inl ''Please add a handler to your event''
   \<and> defineSourceEvent (event_def (Some ''A'') (Some ''d'') (Some echo))
     = Inr \<lparr>cl_type = ''A'', cl_handler = echo,
            type_prop = \<lparr>pvalue = ''A'', writable = False, configurable = False\<rparr>,
            plugin_prop = \<lparr>pvalue = None, writable = True, configurable = False\<rparr>\<rparr>"
  using defineSourceEvent_checks [of "event_def (Some []) (Some ''d'') (Some echo)"]
    defineSourceEvent_checks [of "event_def None None None"]
    defineSourceEvent_checks [of "event_def (Some ''A'') None (Some echo)"]
    defineSourceEvent_checks [of "event_def (Some ''A'') (Some []) None"]
    defineSourceEvent_checks [of "event_def (Some ''A'') (Some ''d'') None"]
    defineSourceEvent_checks [of "event_def (Some ''A'') (Some ''d'') (Some echo)"]
  by (simp add: event_def_def)

text \<open>
  C4, as the spec has it: a call of a defined handler whose \<open>plugin\<close> property is null
  fails at once, the "not registered" error being reported synchronously to the caller.
  It is not: \<open>wrappedFunction\<close> is an \<open>async\<close> function, so its \<open>throw\<close> does not
  reach the caller as an exception. The call on the handler that was defined and never
  registered returns a future; a caller that has more to do after the call does it and
  returns its own value, where an exception of the call would have ended it with that
  error; and \<open>runEvent\<close>, which makes the same call, is fulfilled.
\<close>

theorem unregistered_call_returns:
  "pvalue (plugin_prop (handlers unregistered_state ! 0)) = None
   \<and> fst (wrappedFunction None None 0 5 unregistered_state) = 0
   \<and> fst (exec None None (Invoke 0 5 (Return (Plain 1))) unregistered_state)
       = Returned (Plain 1)
   \<and> fst (exec None None (Invoke 0 5 (Return (Plain 1))) unregistered_state)
       \<noteq> Threw ''Please make sure you registered the function''
   \<and> fst (runEvent None None [0] ''A'' 5 unregistered_state) = Fulfilled"
  by code_simp

text \<open>
  C4, amended: a call of a defined handler whose \<open>plugin\<close> property is still null
  returns, and what it returns is a future that is rejected with the "not registered"
  error already when the call returns. Nothing is pushed: the call leaves the queue,
  the jobs of the event loop and every other part of the state as they were, but for
  the new future and the observation of the call. The error does not reach the caller
  as an exception: a caller that drops the future goes on with the rest of its code,
  and the rejection is left without a handler.
\<close>

theorem unregistered_call_rejected:
  assumes "h < length (handlers s)" and "pvalue (plugin_prop (handlers s ! h)) = None"
  shows "wrappedFunction own ctx h a s =
           (length (futures s),
            s\<lparr>futures := futures s @ [Rejected ''Please make sure you registered the function''],
              trace := trace s @ [EInvoke own h a]\<rparr>)
         \<and> eventSystemQueue (snd (wrappedFunction own ctx h a s)) = eventSystemQueue s
         \<and> macro (snd (wrappedFunction own ctx h a s)) = macro s
         \<and> micro (snd (wrappedFunction own ctx h a s)) = micro s
         \<and> pushed (trace (snd (wrappedFunction own ctx h a s))) = pushed (trace s)
         \<and> exec own ctx (Invoke h a c) s =
             exec own ctx c
               (s\<lparr>futures := futures s @ [Rejected ''Please make sure you registered the function''],
                  trace := trace s @ [EInvoke own h a],
                  unhandled := unhandled s @ [''Please make sure you registered the function'']\<rparr>)"
  using assms by (simp add: wrappedFunction_unregistered discard_def reject_unhandled_def)

theorem unregistered_call_rejected_witness:
  "0 < length (handlers unregistered_state)
   \<and> pvalue (plugin_prop (handlers unregistered_state ! 0)) = None
   \<and> fst (wrappedFunction None None 0 5 unregistered_state) = 0
   \<and> futures (snd (wrappedFunction None None 0 5 unregistered_state))
       = [Rejected ''Please make sure you registered the function'']
   \<and> eventSystemQueue (snd (wrappedFunction None None 0 5 unregistered_state)) = None
   \<and> fst (exec None None (Invoke 0 5 (Return (Plain 1))) unregistered_state)
       = Returned (Plain 1)"
proof -
  have h1: "0 < length (handlers unregistered_state)"
    by (simp add: unregistered_state_handlers)
  have h2: "pvalue (plugin_prop (handlers unregistered_state ! 0)) = None"
    by (simp add: unregistered_state_handlers wrapHandlerWithEventTracking_def
        defineProperty_def)
  have f: "futures unregistered_state = []" "eventSystemQueue unregistered_state = None"
    by (simp_all add: unregistered_state_def run_def init_def event_def_def
        defineSourceEvent_def)
  from unregistered_call_rejected [OF h1 h2, of None None 5 "Return (Plain 1)"] h1 h2 f
  show ?thesis by simp
qed


lemma write_to_type:
  assumes "\<not> writable (type_prop f)" "\<not> configurable (type_prop f)" "write_to w f = Inr f'"
  shows "type_prop f' = type_prop f"
  using assms
  by (cases w) (auto simp: assign_def redefine_def split: if_splits sum.splits)

lemma defineSourceEvent_frozen:
  assumes "defineSourceEvent d = Inr f"
  shows "\<not> writable (type_prop f) \<and> \<not> configurable (type_prop f)
         \<and> pvalue (type_prop f) = the (d_type d)"
  using assms
  by (auto simp: defineSourceEvent_def wrapHandlerWithEventTracking_def defineProperty_def
      split: if_splits option.splits)

lemma act_type:
  assumes "frozen s" "h < length (handlers s)"
  shows "frozen (act s x) \<and> h < length (handlers (act s x))
         \<and> type_prop (handlers (act s x) ! h) = type_prop (handlers s ! h)"
proof (cases x)
  case Tick
  with assms show ?thesis by (simp add: frozen_def)
next
  case (Define d)
  with assms show ?thesis
    by (cases "defineSourceEvent d")
       (auto simp: frozen_def nth_append dest: defineSourceEvent_frozen)
next
  case (Write k w)
  show ?thesis
  proof (cases "k < length (handlers s)")
    case False
    with assms Write show ?thesis by (simp add: frozen_def)
  next
    case True
    show ?thesis
    proof (cases "write_to w (handlers s ! k)")
      case (Inl e)
      with assms Write True show ?thesis by (simp add: frozen_def)
    next
      case (Inr f')
      from assms(1) True have fk: "\<not> writable (type_prop (handlers s ! k))"
        "\<not> configurable (type_prop (handlers s ! k))"
        by (simp_all add: frozen_def)
      from write_to_type [OF fk Inr] have eq: "type_prop f' = type_prop (handlers s ! k)" .
      have "frozen (s\<lparr>handlers := (handlers s)[k := f']\<rparr>)"
        using assms(1) fk eq by (auto simp: frozen_def dest!: set_update_subset_insert [THEN subsetD])
      moreover have "type_prop ((handlers s)[k := f'] ! h) = type_prop (handlers s ! h)"
        using eq assms(2) by (cases "h = k") simp_all
      ultimately show ?thesis using Write True Inr assms(2) by simp
    qed
  qed
next
  case (Call k a)
  with assms show ?thesis by (simp add: frozen_def)
next
  case (Dispatch hs n a)
  with assms show ?thesis by (simp add: frozen_def)
qed

lemma foldl_act_type:
  assumes "frozen s" "h < length (handlers s)"
  shows "frozen (foldl act s xs) \<and> h < length (handlers (foldl act s xs))
         \<and> type_prop (handlers (foldl act s xs) ! h) = type_prop (handlers s ! h)"
  using assms
proof (induction xs arbitrary: s)
  case Nil
  then show ?case by simp
next
  case (Cons x xs)
  from act_type [OF Cons.prems] Cons.IH [of "act s x"] show ?case by simp
qed

lemma frozen_run: "frozen (run g as)"
proof (induction as rule: rev_induct)
  case Nil
  show ?case by (simp add: run_def init_def frozen_def)
next
  case (snoc x xs)
  show ?case
  proof (cases x)
    case (Define d)
    with snoc show ?thesis
      by (cases "defineSourceEvent d")
         (auto simp: run_def frozen_def dest: defineSourceEvent_frozen)
  next
    case (Write k w)
    show ?thesis
    proof (cases "k < length (handlers (run g xs))")
      case True
      from act_type [OF snoc True, of x] show ?thesis by (simp add: run_def)
    next
      case False
      with snoc Write show ?thesis by (simp add: run_def frozen_def)
    qed
  qed (use snoc in \<open>simp_all add: run_def frozen_def\<close>)
qed

text \<open>
  C9: the \<open>type\<close> property of a handle that \<open>defineSourceEvent\<close> returns holds the type
  of the definition and is not writable (nor configurable), while \<open>plugin\<close> is writable.
  No write to the handle that succeeds changes \<open>type\<close>; an assignment to \<open>type\<close> is a
  \<open>TypeError\<close>; registration sets \<open>plugin\<close> and nothing else. In every run, whatever
  happens after the definition (writes, registrations, calls, dispatches, turns of the
  event loop), the handle's \<open>type\<close> property stays as it was defined.
\<close>

theorem type_property_fixed:
  assumes "defineSourceEvent d = Inr f"
  shows "pvalue (type_prop f) = the (d_type d) \<and> \<not> writable (type_prop f)
         \<and> writable (plugin_prop f)
         \<and> (\<forall>w f'. write_to w f = Inr f' \<longrightarrow> type_prop f' = type_prop f)
         \<and> (\<forall>v. write_to (AssignType v) f = Inl ''TypeError'')
         \<and> (\<forall>p. register p f = Inr (f\<lparr>plugin_prop := (plugin_prop f)\<lparr>pvalue := Some p\<rparr>\<rparr>))
         \<and> (\<forall>g as bs. length (handlers (run g as)) < length (handlers (run g (as @ Define d # bs)))
               \<and> type_prop (handlers (run g (as @ Define d # bs)) ! length (handlers (run g as)))
                   = type_prop f)"
proof -
  note fz = defineSourceEvent_frozen [OF assms]
  have wp: "writable (plugin_prop f)"
    using assms
    by (auto simp: defineSourceEvent_def wrapHandlerWithEventTracking_def defineProperty_def
        split: if_splits option.splits)
  have a: "\<forall>w f'. write_to w f = Inr f' \<longrightarrow> type_prop f' = type_prop f"
    using fz write_to_type by blast
  have b: "\<forall>v. write_to (AssignType v) f = Inl ''TypeError''"
    using fz by (simp add: assign_def)
  have c: "\<forall>p. register p f = Inr (f\<lparr>plugin_prop := (plugin_prop f)\<lparr>pvalue := Some p\<rparr>\<rparr>)"
    using wp by (simp add: register_def assign_def)
  have d: "length (handlers (run g as)) < length (handlers (run g (as @ Define d # bs)))
           \<and> type_prop (handlers (run g (as @ Define d # bs)) ! length (handlers (run g as)))
               = type_prop f" for g as bs
  proof -
    let ?s = "act (run g as) (Define d)"
    have s: "?s = (run g as)\<lparr>handlers := handlers (run g as) @ [f]\<rparr>"
      using assms by simp
    have "frozen (run g (as @ [Define d]))" by (rule frozen_run)
    then have fr: "frozen ?s" by (simp add: run_def)
    have lt: "length (handlers (run g as)) < length (handlers ?s)"
      using assms by simp
    have "run g (as @ Define d # bs) = foldl act ?s bs"
      by (simp add: run_def)
    with foldl_act_type [OF fr lt, of bs] show ?thesis
      using assms by simp
  qed
  from fz wp a b c d show ?thesis by blast
qed

theorem type_property_fixed_witness:
  "defineSourceEvent (event_def (Some ''A'') (Some ''d'') (Some echo))
     = Inr (wrapHandlerWithEventTracking ''A'' echo)
   \<and> pvalue (type_prop (wrapHandlerWithEventTracking ''A'' echo)) = ''A''
   \<and> write_to (AssignType ''B'') (wrapHandlerWithEventTracking ''A'' echo) = Inl ''TypeError''
   \<and> type_prop (handlers (run gen (Define (event_def (Some ''A'') (Some ''d'') (Some echo))
         # [Write 0 (AssignPlugin (Some pl)), Write 0 (RedefineType ''B''), Call 0 5, Tick])) ! 0)
       = type_prop (wrapHandlerWithEventTracking ''A'' echo)"
proof -
  have h: "defineSourceEvent (event_def (Some ''A'') (Some ''d'') (Some echo))
     = Inr (wrapHandlerWithEventTracking ''A'' echo)"
    by (simp add: defineSourceEvent_def event_def_def)
  have l: "length (handlers (run gen [])) = 0"
    by (simp add: run_def init_def)
  note t = type_property_fixed [OF h]
  from t have 1: "pvalue (type_prop (wrapHandlerWithEventTracking ''A'' echo)) = ''A''"
    by (simp add: event_def_def)
  from t have 2: "\<forall>v. write_to (AssignType v) (wrapHandlerWithEventTracking ''A'' echo)
      = Inl ''TypeError''"
    by blast
  from t have 3: "\<forall>g as bs.
      type_prop (handlers (run g (as @ Define (event_def (Some ''A'') (Some ''d'') (Some echo))
         # bs)) ! length (handlers (run g as)))
       = type_prop (wrapHandlerWithEventTracking ''A'' echo)"
    by blast
  from 3 [rule_format, of gen "[]"
      "[Write 0 (AssignPlugin (Some pl)), Write 0 (RedefineType ''B''), Call 0 5, Tick]"] l
  have 4: "type_prop (handlers (run gen (Define (event_def (Some ''A'') (Some ''d'') (Some echo))
         # [Write 0 (AssignPlugin (Some pl)), Write 0 (RedefineType ''B''), Call 0 5, Tick])) ! 0)
       = type_prop (wrapHandlerWithEventTracking ''A'' echo)"
    by simp
  from h 1 2 [rule_format, of "''B''"] 4 show ?thesis by blast
qed

section \<open>What an accepted trace says about order\<close>

lemma mon_at_begin:
  assumes "mon tr \<noteq> None" "k < length tr" "tr ! k = EBegin p st"
  shows "\<exists>r. mon (take k tr) = Some (p # r, True, Idle)"
proof -
  from assms(2) have tk: "take (Suc k) tr = take k tr @ [tr ! k]"
    by (rule take_Suc_conv_app_nth)
  from assms(1) have "mon (take (Suc k) tr) \<noteq> None" by (rule mon_take)
  with tk assms(3) have ne: "mon_step (mon (take k tr)) (EBegin p st) \<noteq> None"
    by (simp add: mon_snoc)
  then obtain wl st0 ph where m: "mon (take k tr) = Some (wl, st0, ph)"
    by (cases "mon (take k tr)") auto
  with ne show ?thesis
    by (cases wl) (auto split: if_splits)
qed

lemma ended_position:
  "x \<in> set (ended t) \<Longrightarrow> \<exists>m < length t. \<exists>b v. t ! m = EEnd x b v"
proof (induction t rule: rev_induct)
  case Nil
  then show ?case by simp
next
  case (snoc e t)
  show ?case
  proof (cases "x \<in> set (ended t)")
    case True
    with snoc.IH obtain m b v where "m < length t" "t ! m = EEnd x b v" by blast
    then have "m < length (t @ [e])" "(t @ [e]) ! m = EEnd x b v"
      by (simp_all add: nth_append)
    then show ?thesis by blast
  next
    case False
    with snoc.prems have "x \<in> set (ended [e])" by simp
    then obtain b v where "e = EEnd x b v" by (cases e) auto
    then have "(t @ [e]) ! length t = EEnd x b v" by simp
    then show ?thesis by (metis length_append_singleton lessI)
  qed
qed

lemma pushed_take: "pushed tr = pushed (take k tr) @ pushed (drop k tr)"
  by (metis append_take_drop_id pushed_simps(2))

lemma fifo_at_begin:
  assumes ok: "mon tr \<noteq> None" and k: "k < length tr" and b: "tr ! k = EBegin p st"
  shows "length (begun (take k tr)) < length (pushed tr)
         \<and> pushed tr ! length (begun (take k tr)) = p
         \<and> (\<forall>i < length (begun (take k tr)). \<exists>m < k. \<exists>b v. tr ! m = EEnd (pushed tr ! i) b v)"
proof -
  from mon_at_begin [OF ok k b] obtain r where m: "mon (take k tr) = Some (p # r, True, Idle)"
    by blast
  from mon_shape [OF m] have pu: "pushed (take k tr) = begun (take k tr) @ p # r"
    and be: "begun (take k tr) = ended (take k tr)"
    by simp_all
  have all: "pushed tr = begun (take k tr) @ p # r @ pushed (drop k tr)"
    using pushed_take [of tr k] pu by simp
  have 1: "length (begun (take k tr)) < length (pushed tr)"
    by (simp add: all)
  have 2: "pushed tr ! length (begun (take k tr)) = p"
    by (simp add: all)
  have 3: "\<exists>m < k. \<exists>b v. tr ! m = EEnd (pushed tr ! i) b v"
    if i: "i < length (begun (take k tr))" for i
  proof -
    from i have "pushed tr ! i = begun (take k tr) ! i"
      by (simp add: all nth_append)
    with i be have "pushed tr ! i \<in> set (ended (take k tr))"
      by (metis nth_mem)
    from ended_position [OF this] obtain m b v where
      "m < length (take k tr)" "take k tr ! m = EEnd (pushed tr ! i) b v" by blast
    then have "m < k" "tr ! m = EEnd (pushed tr ! i) b v" by simp_all
    then show ?thesis by blast
  qed
  from 1 2 3 show ?thesis by blast
qed

lemma one_at_a_time:
  assumes ok: "mon tr \<noteq> None"
  shows "length (begun (take n tr)) \<le> Suc (length (ended (take n tr)) + length (failed (take n tr)))
         \<and> length (ended (take n tr)) + length (failed (take n tr)) \<le> length (begun (take n tr))
         \<and> begun (take n tr) = take (length (begun (take n tr))) (pushed tr)"
proof -
  from mon_take [OF ok, of n] obtain wl st ph where m: "mon (take n tr) = Some (wl, st, ph)"
    by (cases "mon (take n tr)") auto
  note sh = mon_shape [OF m]
  have "pushed tr = begun (take n tr) @ wl @ pushed (drop n tr)"
    using pushed_take [of tr n] sh by simp
  then have pre: "begun (take n tr) = take (length (begun (take n tr))) (pushed tr)"
    by simp
  from sh have
    "length (begun (take n tr)) \<le> Suc (length (ended (take n tr)) + length (failed (take n tr)))
     \<and> length (ended (take n tr)) + length (failed (take n tr)) \<le> length (begun (take n tr))"
    by (cases ph) auto
  with pre show ?thesis by blast
qed

lemma mon_run: "mon (trace (run g as)) \<noteq> None"
  using serial_run [of g as] by (auto simp: serial_def)

section \<open>What becomes of the futures\<close>

lemma pending_all_more: "pending_all fs L \<Longrightarrow> pending_all (fs @ [st]) L"
  by (auto simp: pending_all_def nth_append)

lemma pending_all_fresh:
  assumes "pending_all fs (A @ B)"
  shows "pending_all (fs @ [Pending]) (A @ length fs # B)"
proof -
  from assms have "length fs \<notin> set (A @ B)"
    by (auto simp: pending_all_def)
  with assms show ?thesis
    by (fastforce simp: pending_all_def nth_append less_Suc_eq)
qed

lemma pending_all_sub:
  "pending_all fs L \<Longrightarrow> distinct M \<Longrightarrow> set M \<subseteq> set L \<Longrightarrow> pending_all fs M"
  by (auto simp: pending_all_def)

lemma ids_unregistered:
  assumes "pvalue (plugin_prop (handlers s ! h)) = None"
  shows "ids (snd (wrappedFunction own ctx h a s)) = ids s"
    "futures (snd (wrappedFunction own ctx h a s))
       = futures s @ [Rejected ''Please make sure you registered the function'']"
  using assms by (simp_all add: wrappedFunction_unregistered ids_def queue_of_def)

lemma ids_busy:
  assumes "pvalue (plugin_prop (handlers s ! h)) = Some p"
    "concurrency (queue_of s) \<le> running (queue_of s)"
  shows "ids (snd (wrappedFunction own ctx h a s)) = ids s @ [length (futures s)]"
    "futures (snd (wrappedFunction own ctx h a s)) = futures s @ [Pending]"
  using assms by (simp_all add: wrappedFunction_busy ids_def queue_of_def)

lemma ids_idle:
  assumes "pvalue (plugin_prop (handlers s ! h)) = Some p"
    "running (queue_of s) < concurrency (queue_of s)"
  shows "ids (snd (wrappedFunction own ctx h a s))
           = concat (map job_ids (micro s @ macro s)) @ length (futures s)
               # map q_done (waiting (queue_of s))"
    "futures (snd (wrappedFunction own ctx h a s)) = futures s @ [Pending]"
  using assms by (simp_all add: wrappedFunction_idle ids_def queue_of_def)

lemma pend_wrappedFunction:
  assumes "pend X s"
  shows "pend X (snd (wrappedFunction own ctx h a s))"
proof (cases s h rule: wrappedFunction_cases)
  case unregistered
  with assms show ?thesis
    by (simp add: pend_def ids_unregistered pending_all_more)
next
  case (busy p)
  from assms have "pending_all (futures s) ((X @ ids s) @ [])"
    by (simp add: pend_def)
  from pending_all_fresh [OF this] busy show ?thesis
    by (simp add: pend_def ids_busy)
next
  case (idle p)
  from assms have "pending_all (futures s)
      ((X @ concat (map job_ids (micro s @ macro s))) @ map q_done (waiting (queue_of s)))"
    by (simp add: pend_def ids_def)
  from pending_all_fresh [OF this] idle show ?thesis
    by (simp add: pend_def ids_idle)
qed

lemma ids_frame:
  assumes "micro s' = micro s" "macro s' = macro s" "eventSystemQueue s' = eventSystemQueue s"
  shows "ids s' = ids s"
  using assms by (simp add: ids_def queue_of_def)

lemma pend_frame:
  assumes "pend X s" "ids s' = ids s" "futures s' = futures s"
  shows "pend X s'"
  using assms by (simp add: pend_def)

lemma pend_fork: "pend X s \<Longrightarrow> pend X (schedule k (Detached d ctx own) s)"
  by (cases k) (simp_all add: pend_def ids_def schedule_def queue_of_def)

lemma pend_escape: "pend X s \<Longrightarrow> pend X (escape e s)"
  by (simp add: pend_def ids_def escape_def queue_of_def)

lemma pend_reject_unhandled: "pend X s \<Longrightarrow> pend X (reject_unhandled e s)"
  by (simp add: pend_def ids_def reject_unhandled_def queue_of_def)

lemma pend_discard: "pend X (snd r) \<Longrightarrow> pend X (discard r)"
  using discard_cases [of r] by (auto simp: pend_reject_unhandled)

lemma pend_exec: "pend X s \<Longrightarrow> pend X (snd (exec own ctx c s))"
  by (induction c arbitrary: s) (simp_all add: pend_wrappedFunction pend_fork pend_discard)

lemma pend_observe: "pend X s \<Longrightarrow> pend X (observe e s)"
  by (simp add: pend_def ids_def observe_def queue_of_def)

lemma pend_drop: "pend (X @ Y) s \<Longrightarrow> pend Y s"
  by (auto simp: pend_def pending_all_def)

lemma pend_schedule_main: "pend [q_done it] s \<Longrightarrow> pend [] (schedule k (Main c ctx it) s)"
  by (cases k) (auto simp: pend_def pending_all_def ids_def schedule_def queue_of_def)

lemma pend_schedule_reaction: "pend [q_done it] s \<Longrightarrow> pend [] (schedule k (Reaction it v) s)"
  by (cases k) (auto simp: pend_def pending_all_def ids_def schedule_def queue_of_def)

lemma ids_fq_release: "set (ids (fq_release s)) \<subseteq> set (ids s)"
  "distinct (ids s) \<Longrightarrow> distinct (ids (fq_release s))"
  "futures (fq_release s) = futures s"
  by (cases "waiting (queue_of s)";
      auto simp: ids_def fq_release_def worker_def observe_def escape_def queue_of_def Let_def)+

lemma pend_fq_release: "pend [] s \<Longrightarrow> pend [] (fq_release s)"
  using ids_fq_release [of s]
  by (simp add: pend_def) (rule pending_all_sub, auto simp: pending_all_def)

lemma pend_settle:
  assumes "pend [p] s"
  shows "pend [] (settle_future p st s)" "futures (settle_future p st s) ! p = st"
  using assms
  by (auto simp: pend_def pending_all_def ids_def settle_future_def queue_of_def nth_list_update)

lemma pend_fq_worked:
  assumes "pend [q_done it] s"
  shows "pend [] (fq_worked it None v s)"
  using assms by (simp add: fq_worked_def pushCallback_def pend_fq_release pend_settle)


text \<open>What a call of a wrapped handler does to the futures and to the observations.\<close>

lemma wrappedFunction_effect:
  "\<exists>st. futures (snd (wrappedFunction own ctx h a s)) = futures s @ [st]
     \<and> micro (snd (wrappedFunction own ctx h a s)) = micro s
     \<and> (\<forall>it v. Reaction it v \<in> set (macro (snd (wrappedFunction own ctx h a s)))
            \<longleftrightarrow> Reaction it v \<in> set (macro s))
     \<and> results (trace (snd (wrappedFunction own ctx h a s))) = results (trace s)
     \<and> (st = Pending
          \<and> pushed (trace (snd (wrappedFunction own ctx h a s)))
              = pushed (trace s) @ [length (futures s)]
        \<or> st = Rejected ''Please make sure you registered the function''
          \<and> pushed (trace (snd (wrappedFunction own ctx h a s))) = pushed (trace s))"
  by (cases s h rule: wrappedFunction_cases)
     (simp_all add: wrappedFunction_unregistered wrappedFunction_busy wrappedFunction_idle)

lemma answered_wrappedFunction:
  assumes "answered s"
  shows "answered (snd (wrappedFunction own ctx h a s))"
  using assms wrappedFunction_effect [of own ctx h a s]
  by (fastforce simp: answered_def nth_append)

lemma fates_wrappedFunction:
  assumes "fates s"
  shows "fates (snd (wrappedFunction own ctx h a s))"
proof -
  from wrappedFunction_effect [of own ctx h a s] obtain st where
    f: "futures (snd (wrappedFunction own ctx h a s)) = futures s @ [st]"
    and m: "micro (snd (wrappedFunction own ctx h a s)) = micro s"
    and ma: "\<forall>it v. Reaction it v \<in> set (macro (snd (wrappedFunction own ctx h a s)))
            \<longleftrightarrow> Reaction it v \<in> set (macro s)"
    and r: "results (trace (snd (wrappedFunction own ctx h a s))) = results (trace s)"
    and p: "st = Pending
          \<and> pushed (trace (snd (wrappedFunction own ctx h a s)))
              = pushed (trace s) @ [length (futures s)]
        \<or> st = Rejected ''Please make sure you registered the function''
          \<and> pushed (trace (snd (wrappedFunction own ctx h a s))) = pushed (trace s)"
    by blast
  from assms have fresh: "length (futures s) \<notin> set (pushed (trace s))"
    by (auto simp: fates_def)
  from assms p fresh ma show ?thesis
    unfolding fates_def f m r
    by (auto simp: nth_append less_Suc_eq)
qed

lemma answered_frame:
  "futures s' = futures s \<Longrightarrow> micro s' = micro s \<Longrightarrow> trace s' = trace s
   \<Longrightarrow> answered s' = answered s"
  by (simp add: answered_def)

lemma fates_frame:
  "futures s' = futures s \<Longrightarrow> micro s' = micro s \<Longrightarrow> macro s' = macro s
   \<Longrightarrow> trace s' = trace s \<Longrightarrow> fates s' = fates s"
  by (simp add: fates_def)

lemma kept_wrappedFunction: "kept X s \<Longrightarrow> kept X (snd (wrappedFunction own ctx h a s))"
  by (simp add: kept_def pend_wrappedFunction answered_wrappedFunction fates_wrappedFunction)

lemma answered_fork: "answered s \<Longrightarrow> answered (schedule k (Detached d ctx own) s)"
  by (cases k) (auto simp: answered_def schedule_def)

lemma fates_fork: "fates s \<Longrightarrow> fates (schedule k (Detached d ctx own) s)"
  by (cases k) (auto simp: fates_def schedule_def)

lemma kept_fork: "kept X s \<Longrightarrow> kept X (schedule k (Detached d ctx own) s)"
  by (simp add: kept_def pend_fork answered_fork fates_fork)

lemma kept_escape: "kept X s \<Longrightarrow> kept X (escape e s)"
  by (simp add: kept_def pend_escape) (simp add: answered_def fates_def escape_def)

lemma kept_reject_unhandled: "kept X s \<Longrightarrow> kept X (reject_unhandled e s)"
  by (simp add: kept_def pend_reject_unhandled)
     (simp add: answered_def fates_def reject_unhandled_def)

lemma kept_report: "kept X s \<Longrightarrow> kept X (report s)"
  by (simp add: kept_def pend_def ids_def queue_of_def answered_def fates_def report_def)

lemma kept_discard: "kept X (snd r) \<Longrightarrow> kept X (discard r)"
  using discard_cases [of r] by (auto simp: kept_reject_unhandled)

lemma kept_exec: "kept X s \<Longrightarrow> kept X (snd (exec own ctx c s))"
  by (induction c arbitrary: s) (simp_all add: kept_wrappedFunction kept_fork kept_discard)

lemma kept_drop: "kept (X @ Y) s \<Longrightarrow> kept Y s"
  by (auto simp: kept_def dest: pend_drop)

lemma kept_observe_fail: "kept X s \<Longrightarrow> kept X (observe (EFail p) s)"
  by (simp add: kept_def pend_observe) (simp add: answered_def fates_def observe_def)

lemma kept_observe_begin: "kept X s \<Longrightarrow> kept X (observe (EBegin p st) s)"
  by (simp add: kept_def pend_observe) (simp add: answered_def fates_def observe_def)

lemma kept_schedule_main:
  assumes "kept [q_done it] s"
  shows "kept [] (schedule k (Main c ctx it) s)"
proof -
  from assms have "pend [] (schedule k (Main c ctx it) s)"
    by (simp add: kept_def pend_schedule_main)
  moreover from assms have "answered (schedule k (Main c ctx it) s)"
    by (cases k) (auto simp: kept_def answered_def schedule_def)
  moreover from assms have "fates (schedule k (Main c ctx it) s)"
    by (cases k) (auto simp: kept_def fates_def schedule_def)
  ultimately show ?thesis by (simp add: kept_def)
qed

text \<open>The promise of the handler resolves: the reaction is scheduled.\<close>

lemma kept_resolve:
  assumes "kept [q_done it] s"
  shows "kept [] (schedule Micro (Reaction it v) (observe (EEnd (q_done it) True v) s))"
proof -
  from assms have pe: "pend [q_done it] s" and an: "answered s" and fa: "fates s"
    by (simp_all add: kept_def)
  from pe have lt: "q_done it < length (futures s)"
    by (simp add: pend_def pending_all_def)
  from pe have "pend [] (schedule Micro (Reaction it v) (observe (EEnd (q_done it) True v) s))"
    by (simp add: pend_schedule_reaction pend_observe)
  moreover from an lt
  have "answered (schedule Micro (Reaction it v) (observe (EEnd (q_done it) True v) s))"
    unfolding answered_def by (simp add: schedule_def observe_def) blast
  moreover from fa
  have "fates (schedule Micro (Reaction it v) (observe (EEnd (q_done it) True v) s))"
    unfolding fates_def by (simp add: schedule_def observe_def) blast
  ultimately show ?thesis by (simp add: kept_def)
qed


lemma fq_release_effect:
  "futures (fq_release s) = futures s" "micro (fq_release s) = micro s"
  "Reaction it v \<in> set (macro (fq_release s)) \<longleftrightarrow> Reaction it v \<in> set (macro s)"
  "results (trace (fq_release s)) = results (trace s)"
  "pushed (trace (fq_release s)) = pushed (trace s)"
  by (cases "waiting (queue_of s)";
      simp add: fq_release_def worker_def observe_def escape_def Let_def)+

text \<open>A task whose job is running has not completed before.\<close>

lemma kept_fresh:
  assumes "kept [p] s"
  shows "(p, b, v) \<notin> set (results (trace s))"
proof
  assume r: "(p, b, v) \<in> set (results (trace s))"
  from assms have pe: "pending_all (futures s) (p # ids s)" and an: "answered s"
    by (simp_all add: kept_def pend_def)
  from pe have pp: "futures s ! p = Pending" and ni: "p \<notin> set (ids s)"
    by (simp_all add: pending_all_def)
  from an r have "futures s ! p = Resolved v \<or>
      b \<and> (\<exists>it. q_done it = p \<and> Reaction it v \<in> set (micro s))"
    unfolding answered_def by blast
  with pp obtain it where "q_done it = p" "Reaction it v \<in> set (micro s)"
    by auto
  then have "p \<in> set (ids s)"
    by (force simp: ids_def)
  with ni show False by simp
qed

text \<open>The worker's callback \<open>cb(null, v)\<close> for the task whose job is running.\<close>

lemma kept_fq_worked:
  assumes pe: "pend [q_done it] s" and fa: "fates s"
    and others: "\<forall>p b w. (p, b, w) \<in> set (results (trace s)) \<and> p \<noteq> q_done it \<longrightarrow>
        p < length (futures s) \<and>
        (futures s ! p = Resolved w \<or>
         b \<and> (\<exists>it'. q_done it' = p \<and> Reaction it' w \<in> set (micro s)))"
    and own: "\<forall>b w. (q_done it, b, w) \<in> set (results (trace s)) \<longrightarrow> w = v"
    and seen: "(q_done it, c, v) \<in> set (results (trace s))"
  shows "kept [] (fq_worked it None v s)"
    and "futures (fq_worked it None v s) ! q_done it = Resolved v"
proof -
  let ?p = "q_done it"
  from pe have lt: "?p < length (futures s)" and pp: "futures s ! ?p = Pending"
    by (simp_all add: pend_def pending_all_def)
  have fu: "futures (fq_worked it None v s) = (futures s)[?p := Resolved v]"
    using lt pp by (simp add: fq_worked_def pushCallback_def fq_release_effect settle_future_def)
  have mi: "micro (fq_worked it None v s) = micro s"
    by (simp add: fq_worked_def pushCallback_def fq_release_effect settle_future_def)
  have re: "results (trace (fq_worked it None v s)) = results (trace s)"
    by (simp add: fq_worked_def pushCallback_def fq_release_effect settle_future_def)
  have pu: "pushed (trace (fq_worked it None v s)) = pushed (trace s)"
    by (simp add: fq_worked_def pushCallback_def fq_release_effect settle_future_def)
  have ma: "Reaction it' w \<in> set (macro (fq_worked it None v s))
      \<longleftrightarrow> Reaction it' w \<in> set (macro s)" for it' w
    by (simp add: fq_worked_def pushCallback_def fq_release_effect settle_future_def)
  show "futures (fq_worked it None v s) ! ?p = Resolved v"
    using lt by (simp add: fu)
  have 1: "pend [] (fq_worked it None v s)"
    using pe by (rule pend_fq_worked)
  have 2: "answered (fq_worked it None v s)"
    unfolding answered_def fu mi re
  proof (intro allI impI)
    fix p b w
    assume r: "(p, b, w) \<in> set (results (trace s))"
    show "p < length ((futures s)[?p := Resolved v]) \<and>
        ((futures s)[?p := Resolved v] ! p = Resolved w \<or>
         b \<and> (\<exists>it'. q_done it' = p \<and> Reaction it' w \<in> set (micro s)))"
    proof (cases "p = ?p")
      case True
      with r own have "w = v" by blast
      with True lt show ?thesis by simp
    next
      case False
      with r others show ?thesis by (simp add: nth_list_update)
    qed
  qed
  have 3: "fates (fq_worked it None v s)"
    using fa seen lt unfolding fates_def fu mi re pu ma
    by (auto simp: nth_list_update split: if_splits)
  from 1 2 3 show "kept [] (fq_worked it None v s)"
    by (simp add: kept_def)
qed

text \<open>The worker hands the value of the handler to its callback in the same job.\<close>

lemma kept_return:
  assumes "kept [q_done it] s"
  shows "kept [] (fq_worked it None v (observe (EEnd (q_done it) b v) s))"
    and "futures (fq_worked it None v (observe (EEnd (q_done it) b v) s)) ! q_done it
           = Resolved v"
proof -
  let ?s = "observe (EEnd (q_done it) b v) s"
  from assms have pe: "pend [q_done it] ?s"
    by (simp add: kept_def pend_observe)
  from assms have fa: "fates ?s"
    unfolding kept_def fates_def by (simp add: observe_def) blast
  from assms have an: "answered s" by (simp add: kept_def)
  note fresh = kept_fresh [OF assms]
  have others: "\<forall>p b w. (p, b, w) \<in> set (results (trace ?s)) \<and> p \<noteq> q_done it \<longrightarrow>
        p < length (futures ?s) \<and>
        (futures ?s ! p = Resolved w \<or>
         b \<and> (\<exists>it'. q_done it' = p \<and> Reaction it' w \<in> set (micro ?s)))"
    using an by (auto simp: answered_def observe_def)
  have own: "\<forall>b w. (q_done it, b, w) \<in> set (results (trace ?s)) \<longrightarrow> w = v"
    using fresh by (auto simp: observe_def)
  have seen: "(q_done it, b, v) \<in> set (results (trace ?s))"
    by (simp add: observe_def)
  from kept_fq_worked [OF pe fa others own seen]
  show "kept [] (fq_worked it None v ?s)"
    and "futures (fq_worked it None v ?s) ! q_done it = Resolved v"
    by simp_all
qed


lemma kept_nil: "kept [p] s \<Longrightarrow> kept [] s"
  using kept_drop [of "[p]" "[]" s] by simp

lemma kept_take_then:
  assumes "kept [q_done it] s"
  shows "kept [] (take_then it x s)"
  using assms
  by (cases "call_then x")
     (auto simp: take_then_def kept_return intro: kept_nil kept_escape kept_observe_fail)

lemma kept_resolve_main:
  assumes "kept [q_done it] s"
  shows "kept [] (resolve_main ctx it x s)"
  using assms
  by (auto simp: resolve_main_def kept_resolve kept_schedule_main
        intro: kept_nil kept_reject_unhandled kept_observe_fail
        split: val.splits reply.splits)

lemma kept_finish_immediate:
  assumes "kept [q_done it] (snd r)"
  shows "kept [] (finish (Immediate it tok) r)"
  using assms
  by (cases "fst r")
     (auto simp: finish_def kept_return kept_schedule_main kept_take_then
        intro: kept_nil kept_escape kept_observe_fail)

lemma kept_finish_main:
  assumes "kept [q_done it] (snd r)"
  shows "kept [] (finish (Main c ctx it) r)"
  using assms
  by (cases "fst r")
     (auto simp: finish_def kept_resolve_main kept_schedule_main
        intro: kept_nil kept_reject_unhandled kept_observe_fail)

lemma kept_finish_detached:
  assumes "kept [] (snd r)"
  shows "kept [] (finish (Detached c ctx own) r)"
  using assms
  by (cases "fst r") (auto simp: finish_def kept_reject_unhandled kept_fork)

text \<open>Taking a job off its queue: its task is now the one whose job is running.\<close>

lemma kept_popped:
  assumes k: "kept [] s"
    and pop: "micro s = j # micro s0 \<and> macro s0 = macro s
              \<or> micro s = [] \<and> micro s0 = [] \<and> macro s = j # macro s0"
    and same: "eventSystemQueue s0 = eventSystemQueue s" "trace s0 = trace s"
      "futures s0 = futures s"
    and nr: "\<forall>it v. j \<noteq> Reaction it v"
  shows "kept (job_ids j) s0"
proof -
  from pop same have i: "ids s = job_ids j @ ids s0"
    by (auto simp: ids_def queue_of_def)
  from pop nr have m: "\<forall>it v. Reaction it v \<in> set (micro s) \<longleftrightarrow> Reaction it v \<in> set (micro s0)"
    by auto
  from k i same have "pend (job_ids j) s0"
    by (simp add: kept_def pend_def)
  moreover from k m same have "answered s0"
    by (simp add: kept_def answered_def)
  moreover from pop have "set (macro s0) \<subseteq> set (macro s)" by auto
  with k m same have "fates s0"
    by (auto simp: kept_def fates_def)
  ultimately show ?thesis by (simp add: kept_def)
qed

lemma kept_reaction:
  assumes k: "kept [] s"
    and pop: "micro s = Reaction it v # micro s0" "macro s0 = macro s"
    and same: "eventSystemQueue s0 = eventSystemQueue s" "trace s0 = trace s"
      "futures s0 = futures s"
  shows "kept [] (fq_worked it None v s0)"
    and "futures (fq_worked it None v s0) ! q_done it = Resolved v"
proof -
  from pop same have i: "ids s = q_done it # ids s0"
    by (simp add: ids_def queue_of_def)
  from k have pa: "pending_all (futures s) (ids s)" and an: "answered s" and fa: "fates s"
    by (simp_all add: kept_def pend_def)
  from pa i have pp: "futures s ! q_done it = Pending" and ni: "q_done it \<notin> set (ids s0)"
    by (simp_all add: pending_all_def)
  have inside: "q_done it' \<in> set (ids s0)" if "Reaction it' w \<in> set (micro s0)" for it' w
    using that by (force simp: ids_def)
  from pa i same have pe: "pend [q_done it] s0"
    by (simp add: pend_def)
  from fa pop same have fa0: "fates s0"
    by (simp add: fates_def)
  have others: "\<forall>p b w. (p, b, w) \<in> set (results (trace s0)) \<and> p \<noteq> q_done it \<longrightarrow>
        p < length (futures s0) \<and>
        (futures s0 ! p = Resolved w \<or>
         b \<and> (\<exists>it'. q_done it' = p \<and> Reaction it' w \<in> set (micro s0)))"
  proof (intro allI impI, elim conjE)
    fix p b w
    assume r: "(p, b, w) \<in> set (results (trace s0))" and ne: "p \<noteq> q_done it"
    from an r same have "p < length (futures s) \<and>
        (futures s ! p = Resolved w \<or>
         b \<and> (\<exists>it'. q_done it' = p \<and> Reaction it' w \<in> set (micro s)))"
      unfolding answered_def by simp
    with ne pop same show "p < length (futures s0) \<and>
        (futures s0 ! p = Resolved w \<or>
         b \<and> (\<exists>it'. q_done it' = p \<and> Reaction it' w \<in> set (micro s0)))"
      by auto
  qed
  have own: "\<forall>b w. (q_done it, b, w) \<in> set (results (trace s0)) \<longrightarrow> w = v"
  proof (intro allI impI)
    fix b w
    assume r: "(q_done it, b, w) \<in> set (results (trace s0))"
    from an r same have "futures s ! q_done it = Resolved w \<or>
         b \<and> (\<exists>it'. q_done it' = q_done it \<and> Reaction it' w \<in> set (micro s))"
      unfolding answered_def by simp
    with pp obtain it' where "q_done it' = q_done it" "Reaction it' w \<in> set (micro s)"
      by auto
    with pop inside [of it' w] ni show "w = v" by auto
  qed
  from fa pop same have seen: "(q_done it, True, v) \<in> set (results (trace s0))"
    by (simp add: fates_def)
  from kept_fq_worked [OF pe fa0 others own seen]
  show "kept [] (fq_worked it None v s0)"
    and "futures (fq_worked it None v s0) ! q_done it = Resolved v"
    by simp_all
qed

lemma kept_run_job:
  assumes k: "kept [] s"
    and pop: "micro s = j # micro s0 \<and> macro s0 = macro s
              \<or> micro s = [] \<and> micro s0 = [] \<and> macro s = j # macro s0"
    and same: "eventSystemQueue s0 = eventSystemQueue s" "trace s0 = trace s"
      "futures s0 = futures s"
  shows "kept [] (run_job j s0)"
proof (cases j)
  case (Reaction it v)
  from k have "Reaction it v \<notin> set (macro s)" by (simp add: kept_def fates_def)
  with pop Reaction have "micro s = Reaction it v # micro s0" "macro s0 = macro s" by auto
  from kept_reaction(1) [OF k this same] show ?thesis
    by (simp add: Reaction run_job_def)
next
  case (Immediate it tok)
  with kept_popped [OF k pop same] have "kept [q_done it] s0" by simp
  then show ?thesis
    by (simp add: Immediate run_job_def call_handler_def kept_finish_immediate kept_exec kept_observe_begin)
next
  case (Main c ctx it)
  with kept_popped [OF k pop same] have "kept [q_done it] s0" by simp
  then show ?thesis
    by (simp add: Main run_job_def kept_finish_main kept_exec)
next
  case (Detached c ctx own)
  with kept_popped [OF k pop same] have "kept [] s0" by simp
  then show ?thesis
    by (simp add: Detached run_job_def kept_finish_detached kept_exec)
qed


lemma kept_tick: "kept [] s \<Longrightarrow> kept [] (tick s)"
proof (cases "micro s")
  case (Cons j js)
  assume "kept [] s"
  then have "kept [] (run_job j (s\<lparr>micro := js\<rparr>))"
    by (rule kept_run_job) (simp_all add: Cons)
  then show ?thesis by (simp add: tick_def Cons)
next
  case Nil
  assume k: "kept [] s"
  show ?thesis
  proof (cases "macro s")
    case (Cons j js)
    from k have "kept [] (run_job j ((report s)\<lparr>macro := js\<rparr>))"
      by (rule kept_run_job) (simp_all add: report_def Cons Nil)
    then show ?thesis by (simp add: tick_def Cons Nil)
  next
    case Nil': Nil
    with Nil k show ?thesis by (simp add: tick_def kept_report)
  qed
qed

lemma kept_runEvent: "kept X s \<Longrightarrow> kept X (snd (runEvent own ctx hs n a s))"
  by (induction hs arbitrary: s) (simp_all add: kept_wrappedFunction kept_discard)

lemma kept_handlers: "kept X s \<Longrightarrow> kept X (s\<lparr>handlers := hs\<rparr>)"
  by (simp add: kept_def pend_def ids_def queue_of_def answered_def fates_def)

lemma kept_act: "kept [] s \<Longrightarrow> kept [] (act s x)"
  by (cases x)
     (auto simp: kept_tick kept_runEvent kept_wrappedFunction kept_escape kept_handlers
        split: sum.splits)

lemma kept_init: "kept [] (init g)"
  by (simp add: kept_def pend_def pending_all_def ids_def queue_of_def answered_def fates_def
      init_def fastq_new_def)

lemma kept_run: "kept [] (run g as)"
  by (induction as rule: rev_induct) (simp_all add: run_def kept_init kept_act)

section \<open>Serial execution in the order of submission\<close>

lemma push_index:
  assumes "k < length tr" "tr ! k = EPush p c par"
  shows "length (pushed (take k tr)) < length (pushed tr)
         \<and> pushed tr ! length (pushed (take k tr)) = p"
proof -
  from assms have "tr = take k tr @ EPush p c par # drop (Suc k) tr"
    by (metis id_take_nth_drop)
  then have "pushed tr = pushed (take k tr) @ p # pushed (drop (Suc k) tr)"
    by (metis pushed_simps(2,3))
  then show ?thesis by simp
qed

lemma push_index_mono:
  assumes "i < j" "j \<le> length tr" "tr ! i = EPush p c par"
  shows "length (pushed (take i tr)) < length (pushed (take j tr))"
proof -
  from assms have i: "i < length (take j tr)" and n: "take j tr ! i = EPush p c par"
    by simp_all
  from push_index [OF i n] assms(1) show ?thesis
    by (simp add: min_def)
qed

text \<open>The same in terms of the observations themselves.\<close>

lemma fifo_events:
  assumes ok: "mon tr \<noteq> None" and di: "distinct (pushed tr)"
    and ij: "i < j" "j < length tr"
    and pi: "tr ! i = EPush p c par" and pj: "tr ! j = EPush p' c' par'"
    and k: "k < length tr" and b: "tr ! k = EBegin p' st"
  shows "\<exists>m < k. \<exists>b v. tr ! m = EEnd p b v"
proof -
  let ?n = "length (begun (take k tr))"
  from fifo_at_begin [OF ok k b] have n: "?n < length (pushed tr)"
    and pn: "pushed tr ! ?n = p'"
    and before: "\<forall>x < ?n. \<exists>m < k. \<exists>b v. tr ! m = EEnd (pushed tr ! x) b v"
    by simp_all
  from push_index [OF ij(2) pj] have j: "length (pushed (take j tr)) < length (pushed tr)"
    and pj': "pushed tr ! length (pushed (take j tr)) = p'"
    by simp_all
  from nth_eq_iff_index_eq [OF di j n] pn pj' have eq: "length (pushed (take j tr)) = ?n"
    by simp
  from ij have "i < length tr" by simp
  from push_index [OF this pi] have ip: "pushed tr ! length (pushed (take i tr)) = p"
    by simp
  from push_index_mono [OF ij(1) _ pi] ij(2) eq have "length (pushed (take i tr)) < ?n"
    by simp
  with before ip show ?thesis by metis
qed

lemma distinct_pushed_run: "distinct (pushed (trace (run g as)))"
  using kept_run [of g as] by (simp add: kept_def fates_def)


lemma nested_run_trace:
  "trace (run gen nested_run) =
    [EInvoke None 1 5, EPush 0 None None,
     EStart 0 ''B'' ''B-00000000-0000-4000-8000-000000000000'',
     EInvoke None 0 7, EPush 1 None None,
     EBegin 0 (Some ''B-00000000-0000-4000-8000-000000000000''),
     EInvoke (Some 0) 0 1,
     EPush 2 (Some 0) (Some ''B-00000000-0000-4000-8000-000000000000''),
     EEnd 0 True (Plain 6), EStart 1 ''A'' ''A-11111111-1111-4111-8111-111111111111'',
     EBegin 1 (Some ''A-11111111-1111-4111-8111-111111111111''),
     EEnd 1 False (Plain 7),
     EStart 2 ''A'' ''A-22222222-2222-4222-8222-222222222222'',
     EBegin 2 (Some ''A-22222222-2222-4222-8222-222222222222''),
     EEnd 2 False (Plain 1)]"
  by code_simp


section \<open>A failing handler\<close>

lemma pushed_future:
  assumes "fates s" "q \<in> set (pushed (trace s))" "q \<notin> set (ended (trace s))"
  shows "futures s ! q = Pending"
proof (cases "futures s ! q")
  case Pending
  then show ?thesis .
next
  case (Resolved v)
  from assms have lt: "q < length (futures s)" by (simp add: fates_def)
  with assms(1) Resolved obtain b where "(q, b, v) \<in> set (results (trace s))"
    unfolding fates_def by blast
  then have "q \<in> set (ended (trace s))"
    by (force simp: ended_results)
  with assms(3) show ?thesis by simp
next
  case (Rejected e)
  from assms have lt: "q < length (futures s)" by (simp add: fates_def)
  with assms(1) Rejected have "q \<notin> set (pushed (trace s))"
    unfolding fates_def by blast
  with assms(2) show ?thesis by simp
qed

lemma never_rejected:
  assumes "fates s" "q \<in> set (pushed (trace s))"
  shows "futures s ! q \<noteq> Rejected e"
  using assms unfolding fates_def by blast

text \<open>
  C2: the spec has an error of a handler reject the future of its task and leave the
  queue running, and the callback of \<open>pushTaskToQueue\<close> is written to reject on an error.
  The worker never reports one. It calls its callback only as \<open>cb(null, ...)\<close>: an
  exception of the handler leaves the \<open>setImmediate\<close> callback uncaught, a rejection of
  its promise has no handler, and in both cases \<open>cb\<close> is never called. So in every run
  in which a handler has failed, the future of its task is still pending (it is never
  rejected: no future of a pushed task ever is), its body is the last that began, and
  every task pushed and not completed before has a pending future too: the queue is
  halted for good.
\<close>

theorem handler_error_swallowed:
  assumes "p \<in> set (failed (trace (run g as)))"
  shows "futures (run g as) ! p = Pending
         \<and> failed (trace (run g as)) = [p]
         \<and> begun (trace (run g as)) = ended (trace (run g as)) @ [p]
         \<and> (\<forall>q \<in> set (pushed (trace (run g as))).
               q \<notin> set (ended (trace (run g as))) \<longrightarrow> futures (run g as) ! q = Pending)
         \<and> (\<forall>q \<in> set (pushed (trace (run g as))). \<forall>e. futures (run g as) ! q \<noteq> Rejected e)"
proof -
  let ?s = "run g as"
  have fa: "fates ?s" using kept_run [of g as] by (simp add: kept_def)
  from mon_run [of g as] obtain wl st ph where m: "mon (trace ?s) = Some (wl, st, ph)"
    by (cases "mon (trace ?s)") auto
  note sh = mon_shape [OF m]
  from sh assms have be: "begun (trace ?s) = ended (trace ?s) @ [p]"
    and fl: "failed (trace ?s) = [p]"
    by (cases ph; auto)+
  from sh be have pu: "pushed (trace ?s) = ended (trace ?s) @ p # wl" by simp
  from fa have "distinct (pushed (trace ?s))" by (simp add: fates_def)
  with pu have ne: "p \<notin> set (ended (trace ?s))" by simp
  from pu have pin: "p \<in> set (pushed (trace ?s))" by simp
  from pushed_future [OF fa pin ne] have 1: "futures ?s ! p = Pending" .
  have 2: "\<forall>q \<in> set (pushed (trace ?s)).
               q \<notin> set (ended (trace ?s)) \<longrightarrow> futures ?s ! q = Pending"
    using pushed_future [OF fa] by blast
  have 3: "\<forall>q \<in> set (pushed (trace ?s)). \<forall>e. futures ?s ! q \<noteq> Rejected e"
    using never_rejected [OF fa] by blast
  from 1 fl be 2 3 show ?thesis by blast
qed

theorem handler_error_swallowed_witness:
  "0 \<in> set (failed (trace (run gen (failing_run thrower))))
   \<and> futures (run gen (failing_run thrower)) = [Pending, Pending]
   \<and> uncaught (run gen (failing_run thrower)) = [''boom'']
   \<and> pushed (trace (run gen (failing_run thrower))) = [0, 1]
   \<and> begun (trace (run gen (failing_run thrower))) = [0]
   \<and> 0 \<in> set (failed (trace (run gen (failing_run rejecter))))
   \<and> futures (run gen (failing_run rejecter)) = [Pending, Pending]
   \<and> uncaught (run gen (failing_run rejecter)) = [''late'']
   \<and> pushed (trace (run gen (failing_run rejecter))) = [0, 1]
   \<and> begun (trace (run gen (failing_run rejecter))) = [0]"
proof -
  have t: "0 \<in> set (failed (trace (run gen (failing_run thrower))))"
    by code_simp
  have r: "0 \<in> set (failed (trace (run gen (failing_run rejecter))))"
    by code_simp
  have ev:
    "futures (run gen (failing_run thrower)) = [Pending, Pending]"
    "uncaught (run gen (failing_run thrower)) = [''boom'']"
    "pushed (trace (run gen (failing_run thrower))) = [0, 1]"
    "futures (run gen (failing_run rejecter)) = [Pending, Pending]"
    "uncaught (run gen (failing_run rejecter)) = [''late'']"
    "pushed (trace (run gen (failing_run rejecter))) = [0, 1]"
    by code_simp+
  have e: "ended (trace (run gen (failing_run thrower))) = []"
    "ended (trace (run gen (failing_run rejecter))) = []"
    by code_simp+
  from handler_error_swallowed [OF t] e
  have bt: "begun (trace (run gen (failing_run thrower))) = [0]" by simp
  from handler_error_swallowed [OF r] e
  have br: "begun (trace (run gen (failing_run rejecter))) = [0]" by simp
  from t r ev bt br show ?thesis by blast
qed

section \<open>Results reach the futures\<close>

lemma grows_refl: "grows fs fs"
  by (simp add: grows_def)

lemma grows_trans: "grows a b \<Longrightarrow> grows b c \<Longrightarrow> grows a c"
  by (auto simp: grows_def)

lemma grows_append: "grows fs (fs @ xs)"
  by (simp add: grows_def nth_append)

lemma grows_update: "p < length fs \<Longrightarrow> fs ! p = Pending \<Longrightarrow> grows fs (fs[p := st])"
  by (auto simp: grows_def nth_list_update)

lemma extends_refl: "extends s s"
  by (simp add: extends_def grows_refl)

lemma extends_trans: "extends a b \<Longrightarrow> extends b c \<Longrightarrow> extends a c"
  by (auto simp: extends_def intro: grows_trans)

lemma extends_frame:
  "futures s' = futures s \<Longrightarrow> micro s' = micro s \<Longrightarrow> extends s s'"
  by (simp add: extends_def grows_refl)

lemma extends_wrappedFunction: "extends s (snd (wrappedFunction own ctx h a s))"
  using wrappedFunction_effect [of own ctx h a s]
  by (auto simp: extends_def grows_append)

lemma extends_schedule: "extends s (schedule k j s)"
  by (cases k) (simp_all add: extends_def schedule_def grows_refl)

lemma extends_observe: "extends s (observe e s)"
  by (simp add: extends_frame observe_def)

lemma extends_escape: "extends s (escape e s)"
  by (simp add: extends_frame escape_def)

lemma extends_reject_unhandled: "extends s (reject_unhandled e s)"
  by (simp add: extends_frame reject_unhandled_def)

lemma extends_report: "extends s (report s)"
  by (simp add: extends_frame report_def)

lemma extends_discard: "extends (snd r) (discard r)"
  by (simp add: extends_frame)

lemma extends_exec: "extends s (snd (exec own ctx c s))"
proof (induction c arbitrary: s)
  case (Invoke h a c)
  show ?case
    using extends_trans [OF extends_wrappedFunction
        extends_trans [OF extends_discard Invoke.IH]]
    by (simp add: extends_refl)
next
  case (Fork d c)
  show ?case
    using extends_trans [OF extends_schedule Fork.IH(2)] by simp
qed (simp_all add: extends_refl)

lemma extends_fq_worked: "extends s (fq_worked it err v s)"
proof -
  have "extends s (pushCallback (q_done it) err v s)"
    by (cases err)
       (auto simp: pushCallback_def settle_future_def extends_def grows_refl grows_update)
  moreover have "extends (pushCallback (q_done it) err v s) (fq_worked it err v s)"
    by (simp add: fq_worked_def extends_frame fq_release_effect)
  ultimately show ?thesis by (rule extends_trans)
qed

lemma extends_take_then: "extends s (take_then it x s)"
  by (cases "call_then x")
     (auto simp: take_then_def extends_refl
        intro: extends_trans [OF extends_observe extends_fq_worked]
               extends_trans [OF extends_observe extends_escape])

lemma extends_resolve_main: "extends s (resolve_main ctx it x s)"
  by (auto simp: resolve_main_def extends_refl extends_schedule
        intro: extends_trans [OF extends_observe extends_schedule]
               extends_trans [OF extends_observe extends_reject_unhandled]
        split: val.splits reply.splits)

lemma extends_finish: "extends (snd r) (finish j r)"
proof (cases j)
  case (Immediate it tok)
  show ?thesis
    by (cases "fst r")
       (auto simp: Immediate finish_def extends_refl extends_schedule extends_take_then
          intro: extends_trans [OF extends_observe extends_fq_worked]
                 extends_trans [OF extends_observe extends_escape])
next
  case (Main c ctx it)
  show ?thesis
    by (cases "fst r")
       (auto simp: Main finish_def extends_refl extends_schedule extends_resolve_main
          intro: extends_trans [OF extends_observe extends_reject_unhandled])
next
  case (Detached c ctx own)
  show ?thesis
    by (cases "fst r")
       (auto simp: Detached finish_def extends_refl extends_schedule
          extends_reject_unhandled)
next
  case (Reaction it v)
  show ?thesis by (simp add: Reaction finish_def extends_refl)
qed

lemma extends_run_job: "extends s (run_job j s)"
proof (cases j)
  case (Immediate it tok)
  show ?thesis
    unfolding Immediate run_job_def call_handler_def job.case
    by (rule extends_trans [OF extends_observe extends_trans [OF extends_exec extends_finish]])
next
  case (Main c ctx it)
  show ?thesis
    unfolding Main run_job_def job.case
    by (rule extends_trans [OF extends_exec extends_finish])
next
  case (Detached c ctx own)
  show ?thesis
    unfolding Detached run_job_def job.case
    by (rule extends_trans [OF extends_exec extends_finish])
next
  case (Reaction it v)
  show ?thesis by (simp add: Reaction run_job_def extends_fq_worked)
qed

lemma tick_futures: "grows (futures s) (futures (tick s))"
proof (cases "micro s")
  case (Cons j js)
  with extends_run_job [of "s\<lparr>micro := js\<rparr>" j] show ?thesis
    by (simp add: tick_def extends_def)
next
  case Nil
  show ?thesis
  proof (cases "macro s")
    case (Cons j js)
    with Nil extends_run_job [of "(report s)\<lparr>macro := js\<rparr>" j] show ?thesis
      by (simp add: tick_def extends_def report_def)
  next
    case Nil': Nil
    with Nil show ?thesis by (simp add: tick_def grows_refl report_def)
  qed
qed

lemma tick_micro: "micro s = j # js \<Longrightarrow> \<exists>ext. micro (tick s) = js @ ext"
  using extends_run_job [of "s\<lparr>micro := js\<rparr>" j]
  by (simp add: tick_def extends_def)

lemma ticks_futures: "grows (futures s) (futures (ticks n s))"
proof (induction n arbitrary: s)
  case 0
  show ?case by (simp add: grows_refl)
next
  case (Suc n)
  from grows_trans [OF tick_futures Suc.IH] show ?case by simp
qed

lemma ticks_add: "ticks (m + n) s = ticks n (ticks m s)"
  by (induction m arbitrary: s) simp_all

lemma kept_ticks: "kept [] s \<Longrightarrow> kept [] (ticks n s)"
  by (induction n arbitrary: s) (simp_all add: kept_tick)

lemma resolved_stays:
  assumes "p < length (futures s)" "futures s ! p = Resolved v"
  shows "futures (ticks n s) ! p = Resolved v \<and> p < length (futures (ticks n s))"
  using ticks_futures [of s n] assms by (auto simp: grows_def)

text \<open>The reaction at place \<open>k\<close> of the microtask queue runs in the turn after \<open>k\<close> turns.\<close>

lemma reaction_runs:
  assumes "kept [] s" "micro s = pre @ Reaction it v # post"
  shows "futures (ticks (Suc (length pre)) s) ! q_done it = Resolved v
         \<and> q_done it < length (futures (ticks (Suc (length pre)) s))"
  using assms
proof (induction pre arbitrary: s post)
  case Nil
  then have m: "micro s = Reaction it v # post" by simp
  from Nil.prems(1) have lt: "q_done it < length (futures s)"
    by (auto simp: kept_def pend_def pending_all_def ids_def m)
  have "futures (fq_worked it None v (s\<lparr>micro := post\<rparr>)) ! q_done it = Resolved v"
    by (rule kept_reaction(2) [OF Nil.prems(1)]) (simp_all add: m)
  moreover have "length (futures s) \<le> length (futures (tick s))"
    using tick_futures [of s] by (simp add: grows_def)
  ultimately show ?case using lt by (simp add: tick_def m run_job_def)
next
  case (Cons j pre)
  from Cons.prems have m: "micro s = j # (pre @ Reaction it v # post)" by simp
  from tick_micro [OF m] obtain ext where
    "micro (tick s) = pre @ Reaction it v # (post @ ext)" by auto
  from Cons.IH [OF kept_tick [OF Cons.prems(1)] this] show ?case by simp
qed


lemma results_events: "(p, b, v) \<in> set (results tr) \<longleftrightarrow> EEnd p b v \<in> set tr"
proof (induction tr)
  case Nil
  show ?case by simp
next
  case (Cons e tr)
  then show ?case by (cases e) auto
qed

text \<open>The turn that runs the callback of the worker.\<close>

lemma tick_immediate:
  assumes "micro s = []" "macro s = Immediate it tok # js"
  shows "tick s = finish (Immediate it tok) (call_handler (Some tok) it ((report s)\<lparr>macro := js\<rparr>))"
  using assms by (simp add: tick_def run_job_def)

lemma kept_call_handler:
  assumes "kept X s"
  shows "kept X (snd (call_handler st it s))"
  using assms by (simp add: call_handler_def kept_exec kept_observe_begin)

lemma busy_state_jobs:
  "micro busy_state = []"
  "macro busy_state = [Immediate first_item ''A-00000000-0000-4000-8000-000000000000'']"
  by (simp_all add: busy_state_def both_registered_def run_def init_def event_def_def
      defineSourceEvent_def wrapHandlerWithEventTracking_def defineProperty_def assign_def
      wrappedFunction_def pushTaskToQueue_def new_future_def getQueue_def fq_push_def
      queue_of_def fastq_new_def worker_def observe_def first_item_def task_item_def gen_def
      Let_def)




section \<open>Tokens and parents\<close>

lemma linked_mono: "linked tr own ctx \<Longrightarrow> set tr \<subseteq> set tr' \<Longrightarrow> linked tr' own ctx"
  by (cases own) auto

lemma job_scoped_mono: "job_scoped tr j \<Longrightarrow> set tr \<subseteq> set tr' \<Longrightarrow> job_scoped tr' j"
  by (cases j) (auto intro: linked_mono)

lemma wrappedFunction_trace_grows:
  "set (trace s) \<subseteq> set (trace (snd (wrappedFunction own ctx h a s)))"
  by (cases s h rule: wrappedFunction_cases)
     (auto simp: wrappedFunction_unregistered wrappedFunction_busy wrappedFunction_idle)

lemma linked_wrappedFunction:
  "linked (trace s) o' c' \<Longrightarrow> linked (trace (snd (wrappedFunction own ctx h a s))) o' c'"
  using linked_mono wrappedFunction_trace_grows by blast

text \<open>Facts about a state with a longer trace and more jobs.\<close>

lemma scoped_step:
  assumes sc: "scoped s"
    and tr: "trace s' = trace s @ es"
    and jobs: "\<forall>j \<in> set (micro s' @ macro s'). j \<in> set (micro s @ macro s) \<or> job_scoped (trace s') j"
    and pushes: "\<forall>p own par. EPush p own par \<in> set es \<longrightarrow> linked (trace s') own par"
    and begins: "\<forall>p st. EBegin p st \<in> set es \<longrightarrow> linked (trace s') (Some p) st"
  shows "scoped s'"
proof -
  have sub: "set (trace s) \<subseteq> set (trace s')" by (simp add: tr)
  have 1: "job_scoped (trace s') j" if "j \<in> set (micro s' @ macro s')" for j
  proof -
    from jobs that have "j \<in> set (micro s @ macro s) \<or> job_scoped (trace s') j" by blast
    with sc sub show ?thesis
      unfolding scoped_def by (blast intro: job_scoped_mono)
  qed
  have 2: "linked (trace s') own par" if "EPush p own par \<in> set (trace s')" for p own par
  proof -
    from that tr have "EPush p own par \<in> set (trace s) \<or> EPush p own par \<in> set es" by auto
    with sc sub pushes show ?thesis
      unfolding scoped_def by (blast intro: linked_mono)
  qed
  have 3: "linked (trace s') (Some p) st" if "EBegin p st \<in> set (trace s')" for p st
  proof -
    from that tr have "EBegin p st \<in> set (trace s) \<or> EBegin p st \<in> set es" by auto
    with sc sub begins show ?thesis
      unfolding scoped_def by (blast intro: linked_mono)
  qed
  from 1 2 3 show ?thesis unfolding scoped_def by blast
qed

lemma scoped_wrappedFunction:
  assumes "scoped s" "linked (trace s) own ctx"
  shows "scoped (snd (wrappedFunction own ctx h a s))"
proof (cases s h rule: wrappedFunction_cases)
  case unregistered
  from assms(1) show ?thesis
    by (rule scoped_step [where es = "[EInvoke own h a]"])
       (simp_all add: wrappedFunction_unregistered [OF unregistered])
next
  case (busy p)
  note eq = wrappedFunction_busy [OF busy]
  from assms(2) have l: "linked (trace (snd (wrappedFunction own ctx h a s))) own ctx"
    by (rule linked_wrappedFunction)
  show ?thesis
    by (rule scoped_step [OF assms(1),
          where es = "[EInvoke own h a, EPush (length (futures s)) own ctx]"])
       (use l in \<open>simp_all add: eq\<close>)
next
  case (idle p)
  note eq = wrappedFunction_idle [OF idle]
  from assms(2) have l: "linked (trace (snd (wrappedFunction own ctx h a s))) own ctx"
    by (rule linked_wrappedFunction)
  show ?thesis
    by (rule scoped_step [OF assms(1),
          where es = "[EInvoke own h a, EPush (length (futures s)) own ctx,
                 EStart (length (futures s)) (cl_type (handlers s ! h))
                   (cl_type (handlers s ! h) @ ''-'' @ rng s (drawn s))]"])
       (use l in \<open>auto simp: eq\<close>)
qed

lemma scoped_fork:
  assumes "scoped s" "linked (trace s) own ctx"
  shows "scoped (schedule k (Detached d ctx own) s)"
proof (cases k)
  case Micro
  from assms(1) show ?thesis
    by (rule scoped_step [where es = "[]"]) (auto simp: Micro schedule_def assms(2))
next
  case Macro
  from assms(1) show ?thesis
    by (rule scoped_step [where es = "[]"]) (auto simp: Macro schedule_def assms(2))
qed

lemma scoped_frame:
  "scoped s \<Longrightarrow> micro s' = micro s \<Longrightarrow> macro s' = macro s \<Longrightarrow> trace s' = trace s
   \<Longrightarrow> scoped s'"
  by (simp add: scoped_def)

lemma scoped_discard: "scoped (snd r) \<Longrightarrow> scoped (discard r)"
  by (erule scoped_frame) simp_all

lemma scoped_exec:
  assumes "scoped s" "linked (trace s) own ctx"
  shows "scoped (snd (exec own ctx c s)) \<and> set (trace s) \<subseteq> set (trace (snd (exec own ctx c s)))"
  using assms
proof (induction c arbitrary: s)
  case (Invoke h a c)
  show ?case
  proof (cases "h < length (handlers s)")
    case True
    let ?s = "discard (wrappedFunction own ctx h a s)"
    have sc: "scoped ?s"
      by (rule scoped_discard [OF scoped_wrappedFunction [OF Invoke.prems]])
    have li: "linked (trace ?s) own ctx"
      using linked_wrappedFunction [OF Invoke.prems(2)] by simp
    from Invoke.IH [OF sc li] wrappedFunction_trace_grows [of s own ctx h a] True
    show ?thesis by auto
  next
    case False
    with Invoke.prems show ?thesis by simp
  qed
next
  case (Fork d c)
  let ?s = "schedule Micro (Detached d ctx own) s"
  have t: "trace ?s = trace s" by (simp add: schedule_def)
  from Fork.prems(2) have "linked (trace ?s) own ctx" by (simp add: t)
  from Fork.IH(2) [OF scoped_fork [OF Fork.prems] this] t show ?case by simp
qed simp_all


lemma scoped_worker: "scoped s \<Longrightarrow> scoped (worker it s)"
proof (cases "asyncStorage s")
  case False
  assume "scoped s"
  then show ?thesis
    by (rule scoped_frame) (simp_all add: False worker_def escape_def)
next
  case True
  assume sc: "scoped s"
  show ?thesis
    by (rule scoped_step [OF sc, where es = "[EStart (q_done it) (t_type (q_task it))
            (t_type (q_task it) @ ''-'' @ rng s (drawn s))]"])
       (use True in \<open>auto simp: worker_def observe_def Let_def\<close>)
qed

lemma scoped_queue: "scoped s \<Longrightarrow> scoped (s\<lparr>eventSystemQueue := q\<rparr>)"
  by (erule scoped_frame) simp_all

lemma scoped_fq_release: "scoped s \<Longrightarrow> scoped (fq_release s)"
  by (cases "waiting (queue_of s)")
     (simp_all add: fq_release_def Let_def scoped_queue scoped_worker)

lemma scoped_settle: "scoped s \<Longrightarrow> scoped (settle_future p st s)"
  by (erule scoped_frame) (simp_all add: settle_future_def)

lemma scoped_fq_worked: "scoped s \<Longrightarrow> scoped (fq_worked it err v s)"
  by (cases err)
     (simp_all add: fq_worked_def pushCallback_def scoped_settle scoped_fq_release)

lemma scoped_observe:
  assumes "scoped s" "\<forall>p own par. e \<noteq> EPush p own par"
    "\<forall>p st. e = EBegin p st \<longrightarrow> linked (trace s) (Some p) st"
  shows "scoped (observe e s)"
  by (rule scoped_step [OF assms(1), where es = "[e]"])
     (use assms(2,3) in \<open>auto simp: observe_def\<close>)

lemma scoped_escape: "scoped s \<Longrightarrow> scoped (escape e s)"
  by (erule scoped_frame) (simp_all add: escape_def)

lemma scoped_reject_unhandled: "scoped s \<Longrightarrow> scoped (reject_unhandled e s)"
  by (erule scoped_frame) (simp_all add: reject_unhandled_def)

lemma scoped_report: "scoped s \<Longrightarrow> scoped (report s)"
  by (erule scoped_frame) (simp_all add: report_def)

lemma scoped_schedule:
  assumes "scoped s" "job_scoped (trace s) j"
  shows "scoped (schedule k j s)"
proof (cases k)
  case Micro
  show ?thesis
    by (rule scoped_step [OF assms(1), where es = "[]"])
       (auto simp: Micro schedule_def assms(2))
next
  case Macro
  show ?thesis
    by (rule scoped_step [OF assms(1), where es = "[]"])
       (auto simp: Macro schedule_def assms(2))
qed

lemma trace_observe: "trace (observe e s) = trace s @ [e]"
  by (simp add: observe_def)

lemma scoped_take_then:
  assumes "scoped s"
  shows "scoped (take_then it x s)"
  using assms
  by (cases "call_then x")
     (auto simp: take_then_def intro!: scoped_fq_worked scoped_observe scoped_escape)

lemma scoped_resolve_main:
  assumes "scoped s" "linked (trace s) (Some (q_done it)) ctx"
  shows "scoped (resolve_main ctx it x s)"
  using assms
  by (auto simp: resolve_main_def trace_observe
        intro!: scoped_observe scoped_reject_unhandled scoped_schedule
        split: val.splits reply.splits)

lemma scoped_finish:
  assumes "scoped (snd r)" "job_scoped (trace (snd r)) j"
  shows "scoped (finish j r)"
proof (cases j)
  case (Immediate it tok)
  with assms show ?thesis
    by (cases "fst r")
       (auto simp: finish_def scoped_take_then
          intro!: scoped_fq_worked scoped_observe scoped_escape scoped_schedule)
next
  case (Main c ctx it)
  with assms show ?thesis
    by (cases "fst r")
       (auto simp: finish_def trace_observe scoped_resolve_main
          intro!: scoped_observe scoped_reject_unhandled scoped_schedule)
next
  case (Detached c ctx own)
  with assms show ?thesis
    by (cases "fst r")
       (auto simp: finish_def intro!: scoped_reject_unhandled scoped_schedule)
next
  case (Reaction it v)
  with assms show ?thesis by (simp add: finish_def)
qed

lemma scoped_run_job:
  assumes "scoped s" "job_scoped (trace s) j"
  shows "scoped (run_job j s)"
proof (cases j)
  case (Reaction it v)
  with assms show ?thesis by (simp add: run_job_def scoped_fq_worked)
next
  case (Detached c ctx own)
  with assms have l: "linked (trace s) own ctx" by simp
  from scoped_exec [OF assms(1) l, of c] assms(2) show ?thesis
    by (auto simp: Detached run_job_def intro!: scoped_finish intro: linked_mono)
next
  case (Main c ctx it)
  with assms have l: "linked (trace s) (Some (q_done it)) ctx" by simp
  from scoped_exec [OF assms(1) l, of c] l show ?thesis
    by (auto simp: Main run_job_def simp del: linked.simps
          intro!: scoped_finish intro: linked_mono)
next
  case (Immediate it tok)
  let ?p = "q_done it"
  let ?s = "observe (EBegin ?p (Some tok)) s"
  from Immediate assms have st: "EStart ?p (t_type (q_task it)) tok \<in> set (trace s)" by simp
  then have l0: "linked (trace s) (Some ?p) (Some tok)" by auto
  have sc: "scoped ?s"
    by (rule scoped_observe [OF assms(1)]) (use l0 in auto)
  from st have l: "linked (trace ?s) (Some ?p) (Some tok)"
    by (auto simp: observe_def)
  from st have "EStart ?p (t_type (q_task it)) tok \<in> set (trace ?s)"
    by (simp add: observe_def)
  with scoped_exec [OF sc l,
      of "t_handler (q_task it) (t_args (q_task it)) (t_plugin (q_task it))"]
  show ?thesis
    by (auto simp: Immediate run_job_def call_handler_def intro!: scoped_finish)
qed

lemma scoped_tick: "scoped s \<Longrightarrow> scoped (tick s)"
proof (cases "micro s")
  case (Cons j js)
  assume sc: "scoped s"
  with Cons have "scoped (s\<lparr>micro := js\<rparr>)" "job_scoped (trace (s\<lparr>micro := js\<rparr>)) j"
    by (auto simp: scoped_def)
  then show ?thesis by (simp add: tick_def Cons scoped_run_job)
next
  case Nil
  assume sc: "scoped s"
  show ?thesis
  proof (cases "macro s")
    case (Cons j js)
    with sc have "scoped ((report s)\<lparr>macro := js\<rparr>)"
      "job_scoped (trace ((report s)\<lparr>macro := js\<rparr>)) j"
      by (auto simp: scoped_def report_def)
    then show ?thesis by (simp add: tick_def Cons Nil scoped_run_job)
  next
    case Nil': Nil
    with Nil sc show ?thesis by (simp add: tick_def scoped_report)
  qed
qed

lemma scoped_runEvent:
  assumes "scoped s" "linked (trace s) own ctx"
  shows "scoped (snd (runEvent own ctx hs n a s))"
  using assms
  by (induction hs arbitrary: s)
     (simp_all add: scoped_wrappedFunction linked_wrappedFunction scoped_discard
        del: linked.simps)

lemma scoped_handlers: "scoped s \<Longrightarrow> scoped (s\<lparr>handlers := hs\<rparr>)"
  by (erule scoped_frame) simp_all

lemma scoped_act: "scoped s \<Longrightarrow> scoped (act s x)"
  by (cases x)
     (auto simp: scoped_tick scoped_runEvent scoped_wrappedFunction scoped_escape
        scoped_handlers split: sum.splits)

lemma scoped_run: "scoped (run g as)"
proof (induction as rule: rev_induct)
  case Nil
  show ?case by (simp add: run_def init_def scoped_def)
next
  case (snoc x xs)
  then show ?case by (simp add: run_def scoped_act)
qed


lemma numbered_frame:
  "numbered g s \<Longrightarrow> rng s' = rng s \<Longrightarrow> drawn s' = drawn s
   \<Longrightarrow> started (trace s') = started (trace s) \<Longrightarrow> numbered g s'"
  by (simp add: numbered_def)

lemma numbered_draw:
  assumes "numbered g s" "rng s' = rng s" "drawn s' = Suc (drawn s)"
    "started (trace s') = started (trace s) @ [(p, ty, ty @ ''-'' @ rng s (drawn s))]"
  shows "numbered g s'"
  using assms by (auto simp: numbered_def nth_append less_Suc_eq)

lemma numbered_worker: "numbered g s \<Longrightarrow> numbered g (worker it s)"
proof (cases "asyncStorage s")
  case False
  assume "numbered g s"
  then show ?thesis
    by (rule numbered_frame) (simp_all add: False worker_def escape_def)
next
  case True
  assume "numbered g s"
  then show ?thesis
    by (rule numbered_draw) (simp_all add: True worker_def observe_def Let_def)
qed

lemma numbered_wrappedFunction:
  assumes "numbered g s"
  shows "numbered g (snd (wrappedFunction own ctx h a s))"
proof (cases s h rule: wrappedFunction_cases)
  case unregistered
  from assms show ?thesis
    by (rule numbered_frame) (simp_all add: wrappedFunction_unregistered [OF unregistered])
next
  case (busy p)
  from assms show ?thesis
    by (rule numbered_frame) (simp_all add: wrappedFunction_busy [OF busy])
next
  case (idle p)
  from assms show ?thesis
    by (rule numbered_draw) (simp_all add: wrappedFunction_idle [OF idle])
qed

lemma numbered_schedule: "numbered g s \<Longrightarrow> numbered g (schedule k j s)"
  by (erule numbered_frame) (cases k; simp add: schedule_def)+

lemma numbered_discard: "numbered g (snd r) \<Longrightarrow> numbered g (discard r)"
  by (erule numbered_frame) simp_all

lemma numbered_exec: "numbered g s \<Longrightarrow> numbered g (snd (exec own ctx c s))"
  by (induction c arbitrary: s)
     (simp_all add: numbered_wrappedFunction numbered_schedule numbered_discard)

lemma numbered_escape: "numbered g s \<Longrightarrow> numbered g (escape e s)"
  by (erule numbered_frame) (simp_all add: escape_def)

lemma numbered_reject_unhandled: "numbered g s \<Longrightarrow> numbered g (reject_unhandled e s)"
  by (erule numbered_frame) (simp_all add: reject_unhandled_def)

lemma numbered_report: "numbered g s \<Longrightarrow> numbered g (report s)"
  by (erule numbered_frame) (simp_all add: report_def)

lemma numbered_observe:
  "numbered g s \<Longrightarrow> started [e] = [] \<Longrightarrow> numbered g (observe e s)"
  by (erule numbered_frame) (simp_all add: observe_def)

lemma numbered_queue: "numbered g s \<Longrightarrow> numbered g (s\<lparr>eventSystemQueue := q\<rparr>)"
  by (erule numbered_frame) simp_all

lemma numbered_fq_release: "numbered g s \<Longrightarrow> numbered g (fq_release s)"
  by (cases "waiting (queue_of s)")
     (simp_all add: fq_release_def Let_def numbered_queue numbered_worker)

lemma numbered_settle: "numbered g s \<Longrightarrow> numbered g (settle_future p st s)"
  by (erule numbered_frame) (simp_all add: settle_future_def)

lemma numbered_fq_worked: "numbered g s \<Longrightarrow> numbered g (fq_worked it err v s)"
  by (cases err)
     (simp_all add: fq_worked_def pushCallback_def numbered_settle numbered_fq_release)

lemma numbered_take_then:
  assumes "numbered g s"
  shows "numbered g (take_then it x s)"
  using assms
  by (cases "call_then x")
     (simp_all add: take_then_def numbered_fq_worked numbered_observe numbered_escape)

lemma numbered_resolve_main:
  assumes "numbered g s"
  shows "numbered g (resolve_main ctx it x s)"
  using assms
  by (simp add: resolve_main_def numbered_observe numbered_reject_unhandled
        numbered_schedule split: val.splits reply.splits)

lemma numbered_finish:
  assumes "numbered g (snd r)"
  shows "numbered g (finish j r)"
proof (cases j)
  case (Immediate it tok)
  with assms show ?thesis
    by (cases "fst r")
       (simp_all add: finish_def numbered_fq_worked numbered_observe numbered_escape
          numbered_schedule numbered_take_then)
next
  case (Main c ctx it)
  with assms show ?thesis
    by (cases "fst r")
       (simp_all add: finish_def numbered_observe numbered_reject_unhandled
          numbered_schedule numbered_resolve_main)
next
  case (Detached c ctx own)
  with assms show ?thesis
    by (cases "fst r")
       (simp_all add: finish_def numbered_reject_unhandled numbered_schedule)
next
  case (Reaction it v)
  with assms show ?thesis by (simp add: finish_def)
qed

lemma numbered_run_job: "numbered g s \<Longrightarrow> numbered g (run_job j s)"
  by (cases j)
     (simp_all add: run_job_def call_handler_def numbered_finish numbered_exec numbered_observe
        numbered_fq_worked)

lemma numbered_tick: "numbered g s \<Longrightarrow> numbered g (tick s)"
proof (cases "micro s")
  case (Cons j js)
  assume "numbered g s"
  then have "numbered g (s\<lparr>micro := js\<rparr>)" by (rule numbered_frame) simp_all
  then show ?thesis by (simp add: tick_def Cons numbered_run_job)
next
  case Nil
  assume n: "numbered g s"
  show ?thesis
  proof (cases "macro s")
    case (Cons j js)
    from n have "numbered g ((report s)\<lparr>macro := js\<rparr>)"
      by (rule numbered_frame) (simp_all add: report_def)
    then show ?thesis by (simp add: tick_def Cons Nil numbered_run_job)
  next
    case Nil': Nil
    with Nil n show ?thesis by (simp add: tick_def numbered_report)
  qed
qed

lemma numbered_runEvent: "numbered g s \<Longrightarrow> numbered g (snd (runEvent own ctx hs n a s))"
  by (induction hs arbitrary: s) (simp_all add: numbered_wrappedFunction numbered_discard)

lemma numbered_handlers: "numbered g s \<Longrightarrow> numbered g (s\<lparr>handlers := hs\<rparr>)"
  by (erule numbered_frame) simp_all

lemma numbered_act: "numbered g s \<Longrightarrow> numbered g (act s x)"
  by (cases x)
     (auto simp: numbered_tick numbered_runEvent numbered_wrappedFunction numbered_escape
        numbered_handlers split: sum.splits)

lemma numbered_run: "numbered g (run g as)"
proof (induction as rule: rev_induct)
  case Nil
  show ?case by (simp add: run_def init_def numbered_def)
next
  case (snoc x xs)
  then show ?case by (simp add: run_def numbered_act)
qed


lemma started_events: "(p, ty, tok) \<in> set (started tr) \<longleftrightarrow> EStart p ty tok \<in> set tr"
proof (induction tr)
  case Nil
  show ?case by simp
next
  case (Cons e tr)
  then show ?case by (cases e) auto
qed

lemma started_once:
  assumes "mon tr \<noteq> None" "distinct (pushed tr)"
  shows "distinct (map fst (started tr))"
proof -
  from assms(1) obtain wl st ph where m: "mon tr = Some (wl, st, ph)"
    by (cases "mon tr") auto
  from mon_shape [OF m] have pu: "pushed tr = begun tr @ wl"
    and sa: "map fst (started tr) = begun tr @ (if st then [hd wl] else [])"
    and ne: "st \<longrightarrow> wl \<noteq> []"
    by simp_all
  show ?thesis
  proof (cases st)
    case False
    with sa pu assms(2) show ?thesis by simp
  next
    case True
    with ne obtain x r where "wl = x # r" by (cases wl) auto
    with True sa pu assms(2) show ?thesis by simp
  qed
qed

lemma token_of_task:
  assumes "EStart p ty tok \<in> set (trace (run g as))" "EStart p ty' tok' \<in> set (trace (run g as))"
  shows "tok' = tok"
proof -
  have "distinct (pushed (trace (run g as)))"
    using kept_run [of g as] by (simp add: kept_def fates_def)
  from started_once [OF mon_run this] assms show ?thesis
    unfolding started_events [symmetric]
    by (metis eq_key_imp_eq_value prod.inject)
qed

lemma held_wrappedFunction:
  assumes "pvalue (plugin_prop (handlers s ! h)) = Some p"
  shows "task_item (handlers s ! h) p a ctx (length (futures s))
           \<in> set (held (snd (wrappedFunction own ctx h a s)))
         \<and> fst (wrappedFunction own ctx h a s) = length (futures s)"
proof (cases "running (queue_of s) < concurrency (queue_of s)")
  case True
  with assms show ?thesis
    by (simp add: wrappedFunction_idle held_def queue_of_def)
next
  case False
  with assms show ?thesis
    by (simp add: wrappedFunction_busy held_def queue_of_def)
qed

text \<open>
  C3: a call of a registered handler pushes a task whose parent is the store ambient at
  the call, which is none outside every scope; the future returned is that of the task.
  In every run, the parent of a task pushed from outside every task is none, and the
  parent of a task pushed from inside the execution of another task, in its
  synchronous part, after any number of suspensions or in a branch it forked, is the
  token that the worker generated for that task, which has no other.
\<close>

theorem parent_is_ambient_token:
  "(h < length (handlers s) \<and> pvalue (plugin_prop (handlers s ! h)) = Some p \<longrightarrow>
      (\<exists>it \<in> set (held (snd (wrappedFunction own ctx h a s))).
          q_done it = fst (wrappedFunction own ctx h a s) \<and> t_parent (q_task it) = ctx
          \<and> t_args (q_task it) = a \<and> t_plugin (q_task it) = p))
   \<and> (\<forall>q par. EPush q None par \<in> set (trace (run g as)) \<longrightarrow> par = None)
   \<and> (\<forall>q outer par. EPush q (Some outer) par \<in> set (trace (run g as)) \<longrightarrow>
          (\<exists>ty tok. par = Some tok \<and> EStart outer ty tok \<in> set (trace (run g as))
              \<and> (\<forall>ty' tok'. EStart outer ty' tok' \<in> set (trace (run g as)) \<longrightarrow> tok' = tok)))"
proof -
  have 1: "\<exists>it \<in> set (held (snd (wrappedFunction own ctx h a s))).
          q_done it = fst (wrappedFunction own ctx h a s) \<and> t_parent (q_task it) = ctx
          \<and> t_args (q_task it) = a \<and> t_plugin (q_task it) = p"
    if "h < length (handlers s) \<and> pvalue (plugin_prop (handlers s ! h)) = Some p"
    using held_wrappedFunction [OF that [THEN conjunct2], of a ctx own]
    by (intro bexI [where x = "task_item (handlers s ! h) p a ctx (length (futures s))"])
       simp_all
  have sc: "scoped (run g as)" by (rule scoped_run)
  have 2: "par = None" if "EPush q None par \<in> set (trace (run g as))" for q par
    using sc that unfolding scoped_def by fastforce
  have 3: "\<exists>ty tok. par = Some tok \<and> EStart outer ty tok \<in> set (trace (run g as))
              \<and> (\<forall>ty' tok'. EStart outer ty' tok' \<in> set (trace (run g as)) \<longrightarrow> tok' = tok)"
    if "EPush q (Some outer) par \<in> set (trace (run g as))" for q outer par
  proof -
    from sc that have "linked (trace (run g as)) (Some outer) par"
      unfolding scoped_def by blast
    then obtain ty tok where "par = Some tok" "EStart outer ty tok \<in> set (trace (run g as))"
      by auto
    with token_of_task [of outer ty tok g as] show ?thesis by blast
  qed
  from 1 2 3 show ?thesis by blast
qed


theorem parent_is_ambient_token_witness:
  "0 < length (handlers registered_state)
   \<and> pvalue (plugin_prop (handlers registered_state ! 0)) = Some pl
   \<and> (\<exists>it \<in> set (held (snd (wrappedFunction (Some 3) (Some ''B-7'') 0 5 registered_state))).
          q_done it = 0 \<and> t_parent (q_task it) = Some ''B-7'')
   \<and> (\<exists>it \<in> set (held (snd (wrappedFunction None None 0 5 registered_state))).
          q_done it = 0 \<and> t_parent (q_task it) = None)
   \<and> EPush 0 None None \<in> set (trace (run gen nested_run))
   \<and> EPush 2 (Some 0) (Some ''B-00000000-0000-4000-8000-000000000000'')
        \<in> set (trace (run gen nested_run))
   \<and> EStart 0 ''B'' ''B-00000000-0000-4000-8000-000000000000''
        \<in> set (trace (run gen nested_run))"
proof -
  have r0: "0 < length (handlers registered_state)"
    by code_simp
  have r1: "pvalue (plugin_prop (handlers registered_state ! 0)) = Some pl"
    by code_simp
  note r = r0 r1
  have f: "fst (wrappedFunction (Some 3) (Some ''B-7'') 0 5 registered_state) = 0"
    "fst (wrappedFunction None None 0 5 registered_state) = 0"
    by code_simp+
  note t = parent_is_ambient_token [where s = registered_state and h = 0 and p = pl
      and a = 5 and g = gen and as = nested_run]
  from t [of "Some 3" "Some ''B-7''"] r f(1)
  have 1: "\<exists>it \<in> set (held (snd (wrappedFunction (Some 3) (Some ''B-7'') 0 5 registered_state))).
          q_done it = 0 \<and> t_parent (q_task it) = Some ''B-7''"
    by auto
  from t [of None None] r f(2)
  have 2: "\<exists>it \<in> set (held (snd (wrappedFunction None None 0 5 registered_state))).
          q_done it = 0 \<and> t_parent (q_task it) = None"
    by auto
  have 3: "EPush 0 None None \<in> set (trace (run gen nested_run))"
    "EPush 2 (Some 0) (Some ''B-00000000-0000-4000-8000-000000000000'')
        \<in> set (trace (run gen nested_run))"
    by (simp_all add: nested_run_trace)
  from t [of None None] 3(2)
  obtain ty tok where "Some ''B-00000000-0000-4000-8000-000000000000'' = Some tok"
    "EStart 0 ty tok \<in> set (trace (run gen nested_run))"
    by blast
  then have 4: "EStart 0 ''B'' ''B-00000000-0000-4000-8000-000000000000''
        \<in> set (trace (run gen nested_run))"
    by (auto simp: nested_run_trace)
  from r 1 2 3 4 show ?thesis by blast
qed

lemma mon_at_start:
  assumes "mon tr \<noteq> None" "k < length tr" "tr ! k = EStart p ty tok"
  shows "\<exists>r. mon (take k tr) = Some (p # r, False, Idle)"
proof -
  from assms(2) have tk: "take (Suc k) tr = take k tr @ [tr ! k]"
    by (rule take_Suc_conv_app_nth)
  from assms(1) have "mon (take (Suc k) tr) \<noteq> None" by (rule mon_take)
  with tk assms(3) have ne: "mon_step (mon (take k tr)) (EStart p ty tok) \<noteq> None"
    by (simp add: mon_snoc)
  then obtain wl st0 ph where m: "mon (take k tr) = Some (wl, st0, ph)"
    by (cases "mon (take k tr)") auto
  with ne show ?thesis
    by (cases wl) (auto split: if_splits)
qed

lemma tokens_distinct:
  assumes n: "numbered g s"
    and len: "\<forall>i < drawn s. length (g i) = 36"
    and inj: "\<forall>i < drawn s. \<forall>j < drawn s. i \<noteq> j \<longrightarrow> g i \<noteq> g j"
  shows "distinct (tokens (trace s))"
proof -
  let ?st = "started (trace s)"
  from n have l: "length ?st = drawn s"
    and t: "\<forall>k < drawn s. snd (snd (?st ! k)) = fst (snd (?st ! k)) @ ''-'' @ g k"
    by (simp_all add: numbered_def)
  have "tokens (trace s) ! i \<noteq> tokens (trace s) ! j"
    if i: "i < drawn s" and j: "j < drawn s" and ne: "i \<noteq> j" for i j
  proof
    assume eq: "tokens (trace s) ! i = tokens (trace s) ! j"
    from i j l t eq
    have "(fst (snd (?st ! i)) @ ''-'') @ g i = (fst (snd (?st ! j)) @ ''-'') @ g j"
      by (simp add: tokens_def)
    moreover from len i j have "length (g i) = length (g j)" by simp
    ultimately have "g i = g j"
      using append_eq_append_conv [of "fst (snd (?st ! i)) @ ''-''"
          "fst (snd (?st ! j)) @ ''-''" "g i" "g j"]
      by blast
    with inj i j ne show False by blast
  qed
  with l show ?thesis
    by (simp add: distinct_conv_nth tokens_def)
qed



lemma gen_uuids:
  "\<forall>i < 3. length (gen i) = 36" "\<forall>i < 3. \<forall>j < 3. i \<noteq> j \<longrightarrow> gen i \<noteq> gen j"
  by (simp_all add: gen_def)


end
